theory Spec2Isabelle
  imports Main "HOL-Library.Word"
begin

section \<open>The DBF to CSV converter of \<^verbatim>\<open>src/utils/dbf.ts\<close>\<close>

text \<open>
  The converter reads an \<^verbatim>\<open>ArrayBuffer\<close> and returns CSV text with a summary, or throws.
  The buffer is a list of bytes. The numbers the code computes with (offsets, lengths, the
  declared record count) are JavaScript numbers holding integers below \<open>2^53\<close>: the largest
  is \<open>headerLength + rowIndex * recordLength + recordLength\<close> with \<open>rowIndex < 2^32\<close> and both
  lengths below \<open>2^16\<close>, so no rounding occurs and they are natural numbers here.
  A JavaScript string is a list of UTF-16 code units.
\<close>

type_synonym byte = "8 word"
type_synonym buffer = "byte list"
type_synonym jschar = "16 word"
type_synonym jsstring = "jschar list"

text \<open>
  Every \<^verbatim>\<open>throw new Error(...)\<close> of the source is one constructor, in source order.
  \<open>RangeError\<close> is the exception the platform raises when a \<^verbatim>\<open>DataView\<close> read or a
  \<^verbatim>\<open>Uint8Array\<close> window leaves the buffer; the source never throws it itself.
\<close>

datatype error =
    TooSmall            \<comment> \<open>\<^verbatim>\<open>Buffer is too small to be a valid DBF file.\<close>\<close>
  | MalformedHeader     \<comment> \<open>\<^verbatim>\<open>Malformed DBF header.\<close>\<close>
  | HeaderTooLarge      \<comment> \<open>\<^verbatim>\<open>Header length is larger than the file itself.\<close>\<close>
  | NoFields            \<comment> \<open>\<^verbatim>\<open>DBF file does not define any fields.\<close>\<close>
  | PayloadTruncated    \<comment> \<open>\<^verbatim>\<open>DBF payload is truncated.\<close>\<close>
  | RecordBeyondFile    \<comment> \<open>\<^verbatim>\<open>Encountered a record extending beyond the file size.\<close>\<close>
  | RangeError          \<comment> \<open>platform exception of an out-of-bounds read\<close>

text \<open>
  The two result types of the source. The fields \<^verbatim>\<open>type\<close>, \<^verbatim>\<open>length\<close> and \<^verbatim>\<open>fields\<close>
  carry a prime here, since the plain names are taken. The local variables
  \<^verbatim>\<open>recordCount\<close>, \<^verbatim>\<open>headerLength\<close>, \<^verbatim>\<open>recordLength\<close>, \<^verbatim>\<open>fields\<close> and
  \<^verbatim>\<open>parsedRecords\<close> of the source are \<open>count\<close>, \<open>hdrLen\<close>, \<open>recLen\<close>, \<open>flds\<close> and
  \<open>parsed\<close>, since the record fields have their names.
\<close>

record DbfFieldMeta =
  name :: jsstring
  type' :: jsstring
  length' :: nat
  decimalCount :: nat

record DbfCsvResult =
  csv :: jsstring
  recordCount :: nat
  parsedRecords :: nat
  headerLength :: nat
  recordLength :: nat
  fields' :: "DbfFieldMeta list"

subsection \<open>Platform operations\<close>

text \<open>String literals of the source, as code units.\<close>

definition js :: "string \<Rightarrow> jsstring" where
  "js s = map of_char s"

abbreviation COMMA :: jschar where "COMMA \<equiv> 0x2C"
abbreviation DQUOTE :: jschar where "DQUOTE \<equiv> 0x22"
abbreviation LF :: jschar where "LF \<equiv> 0x0A"
abbreviation CR :: jschar where "CR \<equiv> 0x0D"

text \<open>
  \<^verbatim>\<open>DataView.getUint8\<close>, \<^verbatim>\<open>getUint16(_, true)\<close> and \<^verbatim>\<open>getUint32(_, true)\<close>: little-endian
  reads that raise \<open>RangeError\<close> when the bytes read are not all inside the view.
\<close>

definition getUint8 :: "buffer \<Rightarrow> nat \<Rightarrow> error + nat" where
  "getUint8 buf off =
     (if off + 1 \<le> length buf then Inr (unat (buf ! off)) else Inl RangeError)"

definition getUint16 :: "buffer \<Rightarrow> nat \<Rightarrow> error + nat" where
  "getUint16 buf off =
     (if off + 2 \<le> length buf
      then Inr (unat (buf ! off) + 256 * unat (buf ! (off + 1)))
      else Inl RangeError)"

definition getUint32 :: "buffer \<Rightarrow> nat \<Rightarrow> error + nat" where
  "getUint32 buf off =
     (if off + 4 \<le> length buf
      then Inr (unat (buf ! off) + 256 * unat (buf ! (off + 1))
                + 65536 * unat (buf ! (off + 2)) + 16777216 * unat (buf ! (off + 3)))
      else Inl RangeError)"

text \<open>
  \<^verbatim>\<open>new Uint8Array(buffer, byteOffset, length)\<close>: the window of \<open>len\<close> bytes at \<open>off\<close>;
  \<open>RangeError\<close> when \<open>off + len\<close> exceeds the buffer's length.
\<close>

definition uint8Array :: "buffer \<Rightarrow> nat \<Rightarrow> nat \<Rightarrow> error + byte list" where
  "uint8Array buf off len =
     (if off + len \<le> length buf then Inr (take len (drop off buf)) else Inl RangeError)"

text \<open>
  \<^verbatim>\<open>new TextDecoder("ascii")\<close>: the label \<^verbatim>\<open>ascii\<close> names the encoding windows-1252, which
  decodes every byte to one code unit. Bytes \<open>0x80\<close> to \<open>0x9F\<close> follow its index; all other
  bytes decode to the code unit of the same value.
\<close>

definition windows1252 :: "byte \<Rightarrow> jschar" where
  "windows1252 b =
     (if b < 0x80 \<or> 0x9F < b then ucast b
      else [0x20AC, 0x0081, 0x201A, 0x0192, 0x201E, 0x2026, 0x2020, 0x2021,
            0x02C6, 0x2030, 0x0160, 0x2039, 0x0152, 0x008D, 0x017D, 0x008F,
            0x0090, 0x2018, 0x2019, 0x201C, 0x201D, 0x2022, 0x2013, 0x2014,
            0x02DC, 0x2122, 0x0161, 0x203A, 0x0153, 0x009D, 0x017E, 0x0178] ! (unat b - 0x80))"

definition decode :: "byte list \<Rightarrow> jsstring" where
  "decode bytes = map windows1252 bytes"

text \<open>
  \<^verbatim>\<open>String.prototype.trim\<close> removes white space and line terminators from both ends:
  TAB, LF, VT, FF, CR, SP, NBSP, the other space separators and U+2028, U+2029, U+FEFF.
\<close>

definition isWhiteSpace :: "jschar \<Rightarrow> bool" where
  "isWhiteSpace c \<longleftrightarrow>
     (0x09 \<le> c \<and> c \<le> 0x0D) \<or> c = 0x20 \<or> c = 0xA0 \<or> c = 0x1680
     \<or> (0x2000 \<le> c \<and> c \<le> 0x200A) \<or> c = 0x2028 \<or> c = 0x2029
     \<or> c = 0x202F \<or> c = 0x205F \<or> c = 0x3000 \<or> c = 0xFEFF"

definition trim :: "jsstring \<Rightarrow> jsstring" where
  "trim s = rev (dropWhile isWhiteSpace (rev (dropWhile isWhiteSpace s)))"

text \<open>\<^verbatim>\<open>Array.prototype.join\<close> on an array of strings.\<close>

fun join :: "jsstring \<Rightarrow> jsstring list \<Rightarrow> jsstring" where
  "join sep [] = []"
| "join sep [x] = x"
| "join sep (x # y # ys) = x @ sep @ join sep (y # ys)"

text \<open>The decimal digits of a number, as a template literal renders it.\<close>

function decimal :: "nat \<Rightarrow> jsstring" where
  "decimal n = (if n < 10 then [0x30 + of_nat n]
                else decimal (n div 10) @ [0x30 + of_nat (n mod 10)])"
  by pat_completeness auto
termination
  by (relation "measure (\<lambda>n. n)") auto

declare decimal.simps [simp del]

subsection \<open>\<^verbatim>\<open>sanitizeText\<close> and \<^verbatim>\<open>escapeCsv\<close>\<close>

definition sanitizeText :: "byte list \<Rightarrow> jsstring" where
  "sanitizeText bytes = trim (filter (\<lambda>c. c \<noteq> 0) (decode bytes))"

text \<open>\<^verbatim>\<open>value.replace(/"/g, '""')\<close>\<close>

definition doubleQuotes :: "jsstring \<Rightarrow> jsstring" where
  "doubleQuotes v = concat (map (\<lambda>c. if c = DQUOTE then [DQUOTE, DQUOTE] else [c]) v)"

definition needsWrapper :: "jsstring \<Rightarrow> bool" where
  "needsWrapper v \<longleftrightarrow> COMMA \<in> set v \<or> DQUOTE \<in> set v \<or> LF \<in> set v \<or> CR \<in> set v"

definition escapeCsv :: "jsstring \<Rightarrow> jsstring" where
  "escapeCsv v =
     (let escaped = doubleQuotes v
      in if needsWrapper v then [DQUOTE] @ escaped @ [DQUOTE] else escaped)"

subsection \<open>\<^verbatim>\<open>convertDbfToCsv\<close>\<close>

text \<open>
  The descriptor loop \<^verbatim>\<open>while (descriptorOffset < headerLength)\<close>. The terminator branch
  advances the offset by one and leaves the loop; the offset is not read afterwards, so the
  loop returns the collected fields only.
\<close>

function parseDescriptors ::
  "buffer \<Rightarrow> nat \<Rightarrow> nat \<Rightarrow> DbfFieldMeta list \<Rightarrow> error + DbfFieldMeta list" where
  "parseDescriptors buf hdrLen descriptorOffset flds =
     (if descriptorOffset < hdrLen then
        (case getUint8 buf descriptorOffset of Inl e \<Rightarrow> Inl e | Inr marker \<Rightarrow>
           if marker = 0x0D then Inr flds
           else
             (case uint8Array buf descriptorOffset 11 of Inl e \<Rightarrow> Inl e | Inr nameBytes \<Rightarrow>
              let nm = (let s = sanitizeText nameBytes
                        in if s \<noteq> [] then s else js ''FIELD_'' @ decimal (length flds + 1))
              in
              (case getUint8 buf (descriptorOffset + 11) of Inl e \<Rightarrow> Inl e | Inr t \<Rightarrow>
              (case getUint8 buf (descriptorOffset + 16) of Inl e \<Rightarrow> Inl e | Inr len \<Rightarrow>
              (case getUint8 buf (descriptorOffset + 17) of Inl e \<Rightarrow> Inl e | Inr dec \<Rightarrow>
                 parseDescriptors buf hdrLen (descriptorOffset + 32)
                   (flds @ [\<lparr>name = nm, type' = [of_nat t], length' = len,
                             decimalCount = dec\<rparr>]))))))
      else Inr flds)"
  by pat_completeness auto
termination
  by (relation "measure (\<lambda>(buf, hdrLen, descriptorOffset, flds). hdrLen - descriptorOffset)")
     auto

declare parseDescriptors.simps [simp del]

text \<open>The inner loop \<^verbatim>\<open>for (const field of fields)\<close> over one record.\<close>

fun readCells :: "buffer \<Rightarrow> DbfFieldMeta list \<Rightarrow> nat \<Rightarrow> jsstring list \<Rightarrow> error + jsstring list"
  where
  "readCells buf [] fieldOffset csvCells = Inr csvCells"
| "readCells buf (field # rest) fieldOffset csvCells =
     (if fieldOffset + length' field > length buf then Inl RecordBeyondFile
      else
        (case uint8Array buf fieldOffset (length' field) of Inl e \<Rightarrow> Inl e | Inr sliceBytes \<Rightarrow>
           readCells buf rest (fieldOffset + length' field)
             (csvCells @ [escapeCsv (sanitizeText sliceBytes)])))"

text \<open>
  The record loop \<^verbatim>\<open>for (let rowIndex = 0; rowIndex < recordCount; rowIndex += 1)\<close>, with the
  rows collected so far and the counter \<open>parsed\<close>.
\<close>

function scanRecords ::
  "buffer \<Rightarrow> DbfFieldMeta list \<Rightarrow> nat \<Rightarrow> nat \<Rightarrow> nat \<Rightarrow> nat \<Rightarrow> jsstring list \<Rightarrow> nat
     \<Rightarrow> error + (jsstring list \<times> nat)" where
  "scanRecords buf flds dataStart recLen count rowIndex rows parsed =
     (if rowIndex < count then
        (let recordOffset = dataStart + rowIndex * recLen in
         if recordOffset + recLen > length buf then Inr (rows, parsed)
         else
           (case getUint8 buf recordOffset of Inl e \<Rightarrow> Inl e | Inr deletionFlag \<Rightarrow>
              if deletionFlag = 0x2A
              then scanRecords buf flds dataStart recLen count (rowIndex + 1) rows parsed
              else
                (case readCells buf flds (recordOffset + 1) [] of Inl e \<Rightarrow> Inl e
                 | Inr csvCells \<Rightarrow>
                     scanRecords buf flds dataStart recLen count (rowIndex + 1)
                       (rows @ [join [COMMA] csvCells]) (parsed + 1))))
      else Inr (rows, parsed))"
  by pat_completeness auto
termination
  by (relation "measure (\<lambda>(buf, flds, dataStart, recLen, count, rowIndex, rows, parsed).
                            count - rowIndex)")
     auto

declare scanRecords.simps [simp del]

text \<open>
  Lines 32 to 47 of \<^verbatim>\<open>convertDbfToCsv\<close>, as a function of their own so that a statement
  can say that an input passes them: the size check, the three header reads and the two
  header checks. The result is the triple \<open>(recordCount, headerLength, recordLength)\<close>.
\<close>

definition readHeader :: "buffer \<Rightarrow> error + (nat \<times> nat \<times> nat)" where
  "readHeader buf =
     (if length buf < 32 then Inl TooSmall
      else
        (case getUint32 buf 4 of Inl e \<Rightarrow> Inl e | Inr count \<Rightarrow>
        (case getUint16 buf 8 of Inl e \<Rightarrow> Inl e | Inr hdrLen \<Rightarrow>
        (case getUint16 buf 10 of Inl e \<Rightarrow> Inl e | Inr recLen \<Rightarrow>
           if hdrLen = 0 \<or> recLen = 0 then Inl MalformedHeader
           else if hdrLen > length buf then Inl HeaderTooLarge
           else Inr (count, hdrLen, recLen)))))"

text \<open>Lines 49 to 118: the descriptor table, the header row, the record scan, the result.\<close>

definition convertDbfToCsv :: "buffer \<Rightarrow> error + DbfCsvResult" where
  "convertDbfToCsv buf =
     (case readHeader buf of Inl e \<Rightarrow> Inl e | Inr (count, hdrLen, recLen) \<Rightarrow>
     (case parseDescriptors buf hdrLen 32 [] of Inl e \<Rightarrow> Inl e | Inr flds \<Rightarrow>
        if flds = [] then Inl NoFields
        else
          (let rows = [join [COMMA] (map (\<lambda>field. escapeCsv (name field)) flds)];
               dataStart = hdrLen
           in if dataStart + recLen > length buf then Inl PayloadTruncated
              else
                (case scanRecords buf flds dataStart recLen count 0 rows 0 of
                   Inl e \<Rightarrow> Inl e
                 | Inr (rows', parsed) \<Rightarrow>
                     Inr \<lparr>csv = join [CR, LF] rows', recordCount = count,
                          parsedRecords = parsed, headerLength = hdrLen,
                          recordLength = recLen, fields' = flds\<rparr>))))"

section \<open>Notions used to state the properties\<close>

text \<open>
  Record \<open>i\<close> lies at \<open>dataStart + i * recLen\<close>. It fits when its whole span is inside the
  buffer, and it is deleted when its first byte is \<open>0x2A\<close>.
\<close>

definition recordFits :: "buffer \<Rightarrow> nat \<Rightarrow> nat \<Rightarrow> nat \<Rightarrow> bool" where
  "recordFits buf dataStart recLen i \<longleftrightarrow> dataStart + i * recLen + recLen \<le> length buf"

definition isDeleted :: "buffer \<Rightarrow> nat \<Rightarrow> nat \<Rightarrow> nat \<Rightarrow> bool" where
  "isDeleted buf dataStart recLen i \<longleftrightarrow> buf ! (dataStart + i * recLen) = 0x2A"

text \<open>The indices of the records that fit and are not deleted, from \<open>k\<close> on.\<close>

definition liveFrom :: "buffer \<Rightarrow> nat \<Rightarrow> nat \<Rightarrow> nat \<Rightarrow> nat \<Rightarrow> nat list" where
  "liveFrom buf dataStart recLen count k =
     filter (\<lambda>i. recordFits buf dataStart recLen i \<and> \<not> isDeleted buf dataStart recLen i)
       [k..<count]"

definition deletedCount :: "buffer \<Rightarrow> nat \<Rightarrow> nat \<Rightarrow> nat \<Rightarrow> nat" where
  "deletedCount buf dataStart recLen count =
     length (filter (\<lambda>i. recordFits buf dataStart recLen i \<and> isDeleted buf dataStart recLen i)
               [0..<count])"

definition truncatedCount :: "buffer \<Rightarrow> nat \<Rightarrow> nat \<Rightarrow> nat \<Rightarrow> nat" where
  "truncatedCount buf dataStart recLen count =
     length (filter (\<lambda>i. \<not> recordFits buf dataStart recLen i) [0..<count])"

text \<open>The sum of the declared field lengths, and the cells of the fields read from \<open>off\<close>.\<close>

definition fieldWidth :: "DbfFieldMeta list \<Rightarrow> nat" where
  "fieldWidth flds = sum_list (map length' flds)"

fun cellsAt :: "buffer \<Rightarrow> DbfFieldMeta list \<Rightarrow> nat \<Rightarrow> jsstring list" where
  "cellsAt buf [] off = []"
| "cellsAt buf (field # rest) off =
     sanitizeText (take (length' field) (drop off buf)) # cellsAt buf rest (off + length' field)"

text \<open>
  The field cursor of record \<open>i\<close> starts behind the deletion flag; it overruns the buffer when
  the fields read from there pass the buffer's end.
\<close>

definition overruns :: "buffer \<Rightarrow> DbfFieldMeta list \<Rightarrow> nat \<Rightarrow> nat \<Rightarrow> nat \<Rightarrow> bool" where
  "overruns buf flds dataStart recLen i \<longleftrightarrow>
     dataStart + i * recLen + 1 + fieldWidth flds > length buf"

definition recordCells :: "buffer \<Rightarrow> DbfFieldMeta list \<Rightarrow> nat \<Rightarrow> nat \<Rightarrow> nat \<Rightarrow> jsstring list"
  where
  "recordCells buf flds dataStart recLen i = cellsAt buf flds (dataStart + i * recLen + 1)"

text \<open>A table of cells written as CSV text the way the converter does.\<close>

definition csvRow :: "jsstring list \<Rightarrow> jsstring" where
  "csvRow cells = join [COMMA] (map escapeCsv cells)"

definition csvText :: "jsstring list list \<Rightarrow> jsstring" where
  "csvText table = join [CR, LF] (map csvRow table)"

subsection \<open>Reading CSV text under the RFC 4180 rules\<close>

text \<open>
  The reader follows the rules of RFC 4180, section 2: rows are separated by CR LF (rule 1),
  the last row may or may not have an ending line break (rule 2), cells are separated by
  commas (rule 4), a cell that starts with a double quote runs to its closing double quote
  (rules 5 and 6), and inside it two double quotes stand for one (rule 7). So a CR LF
  outside a quoted cell with text behind it separates two rows, and a CR LF that ends the
  text only ends the last row. The result is built from the back: a character joins the
  first cell of the first row, a comma opens a new first cell, a separator opens a new
  first row.
\<close>

fun consChar :: "jschar \<Rightarrow> jsstring list list \<Rightarrow> jsstring list list" where
  "consChar c ((cell # row) # rows) = ((c # cell) # row) # rows"
| "consChar c rows = rows"

fun newCell :: "jsstring list list \<Rightarrow> jsstring list list" where
  "newCell (row # rows) = ([] # row) # rows"
| "newCell [] = []"

definition newRow :: "jsstring list list \<Rightarrow> jsstring list list" where
  "newRow rows = [[]] # rows"

fun cellStart :: "jsstring \<Rightarrow> jsstring list list"
  and unquoted :: "jsstring \<Rightarrow> jsstring list list"
  and quoted :: "jsstring \<Rightarrow> jsstring list list" where
  "cellStart [] = [[[]]]"
| "cellStart (c # s) = (if c = DQUOTE then quoted s else unquoted (c # s))"
| "unquoted [] = [[[]]]"
| "unquoted (c # s) =
     (if c = COMMA then newCell (cellStart s)
      else if c = CR \<and> s \<noteq> [] \<and> hd s = LF
        then (if tl s = [] then [[[]]] else newRow (cellStart (tl s)))
      else consChar c (unquoted s))"
| "quoted [] = [[[]]]"
| "quoted (c # s) =
     (if c = DQUOTE
      then (if s \<noteq> [] \<and> hd s = DQUOTE then consChar DQUOTE (quoted (tl s)) else unquoted s)
      else consChar c (quoted s))"

definition parseCsv :: "jsstring \<Rightarrow> jsstring list list" where
  "parseCsv text = cellStart text"

text \<open>
  The last parsed record is blank when its row is a single empty cell: there is one field
  and its value sanitizes to the empty string. The converter writes this row as empty text
  behind the last CR LF.
\<close>

definition lastRowBlank :: "buffer \<Rightarrow> DbfFieldMeta list \<Rightarrow> nat \<Rightarrow> nat \<Rightarrow> nat \<Rightarrow> bool" where
  "lastRowBlank buf flds dataStart recLen count \<longleftrightarrow>
     liveFrom buf dataStart recLen count 0 \<noteq> []
     \<and> recordCells buf flds dataStart recLen (last (liveFrom buf dataStart recLen count 0))
         = [[]]"

text \<open>
  The decimal numeral of a number: a non-empty text of the digits \<^verbatim>\<open>0\<close> to \<^verbatim>\<open>9\<close> whose
  value is the number and that starts with \<^verbatim>\<open>0\<close> only when it is \<^verbatim>\<open>0\<close> itself.
\<close>

definition digitsValue :: "jsstring \<Rightarrow> nat" where
  "digitsValue ds = foldl (\<lambda>a c. 10 * a + (unat c - 0x30)) 0 ds"

definition isDecimalOf :: "jsstring \<Rightarrow> nat \<Rightarrow> bool" where
  "isDecimalOf ds n \<longleftrightarrow>
     ds \<noteq> [] \<and> (\<forall>c \<in> set ds. 0x30 \<le> c \<and> c \<le> 0x39)
     \<and> (hd ds = 0x30 \<longrightarrow> ds = [0x30]) \<and> digitsValue ds = n"

text \<open>A cell is wrapped when it starts and ends with a double quote of its own.\<close>

definition wrapped :: "jsstring \<Rightarrow> bool" where
  "wrapped e \<longleftrightarrow> 2 \<le> length e \<and> hd e = DQUOTE \<and> last e = DQUOTE"

subsection \<open>Sample files\<close>

text \<open>
  \<open>sampleBuf\<close>: four declared records of length 4 behind a header of 97 bytes with two
  fields, \<^verbatim>\<open>ID\<close> of length 1 and a field with an empty name of length 2. Record 0 is
  \<^verbatim>\<open>abc\<close>, record 1 is deleted, record 2 is \<^verbatim>\<open>1,2\<close>, and of record 3 only two bytes
  are present.
\<close>

definition sampleBuf :: buffer where
  "sampleBuf =
     [0x03, 0x7E, 0x0B, 0x03,  4, 0, 0, 0,  97, 0,  4, 0,
      0, 0, 0, 0, 0, 0, 0, 0, 0, 0, 0, 0, 0, 0, 0, 0, 0, 0, 0, 0,
      0x49, 0x44, 0, 0, 0, 0, 0, 0, 0, 0, 0,  0x43,  0, 0, 0, 0,  1,  0,
      0, 0, 0, 0, 0, 0, 0, 0, 0, 0, 0, 0, 0, 0,
      0, 0, 0, 0, 0, 0, 0, 0, 0, 0, 0,  0x43,  0, 0, 0, 0,  2,  0,
      0, 0, 0, 0, 0, 0, 0, 0, 0, 0, 0, 0, 0, 0,
      0x0D,
      0x20, 0x61, 0x62, 0x63,
      0x2A, 0x78, 0x79, 0x7A,
      0x20, 0x31, 0x2C, 0x32,
      0x20, 0x7A]"

definition sampleFields :: "DbfFieldMeta list" where
  "sampleFields =
     [\<lparr>name = js ''ID'', type' = js ''C'', length' = 1, decimalCount = 0\<rparr>,
      \<lparr>name = js ''FIELD_2'', type' = js ''C'', length' = 2, decimalCount = 0\<rparr>]"

definition sampleResult :: DbfCsvResult where
  "sampleResult =
     \<lparr>csv = js ''ID,FIELD_2'' @ [CR, LF] @ js ''a,bc'' @ [CR, LF]
             @ js ''1,'' @ [DQUOTE] @ js '',2'' @ [DQUOTE],
      recordCount = 4, parsedRecords = 2, headerLength = 97, recordLength = 4,
      fields' = sampleFields\<rparr>"

text \<open>The one field of the files below: \<^verbatim>\<open>NAME\<close>, of type \<^verbatim>\<open>C\<close>, with the given length.\<close>

definition nameField :: "nat \<Rightarrow> DbfFieldMeta" where
  "nameField len = \<lparr>name = js ''NAME'', type' = js ''C'', length' = len, decimalCount = 0\<rparr>"

text \<open>
  \<open>tailBuf\<close>: one declared record of length 11 and one field of length 11, one byte more than
  the record holds behind its flag; the file ends with the end-of-file mark \<open>0x1A\<close>.
\<close>

definition tailBuf :: buffer where
  "tailBuf =
     [0x03, 0x7E, 0x0B, 0x03,  1, 0, 0, 0,  65, 0,  11, 0,
      0, 0, 0, 0, 0, 0, 0, 0, 0, 0, 0, 0, 0, 0, 0, 0, 0, 0, 0, 0,
      0x4E, 0x41, 0x4D, 0x45, 0, 0, 0, 0, 0, 0, 0,  0x43,  0, 0, 0, 0,  11,  0,
      0, 0, 0, 0, 0, 0, 0, 0, 0, 0, 0, 0, 0, 0,
      0x0D,
      0x20,  0x48, 0x45, 0x4C, 0x4C, 0x4F, 0x20, 0x20, 0x20, 0x20, 0x20,
      0x1A]"

text \<open>
  \<open>wideBuf\<close>: two declared records of length 11 and one field of length 20; the file holds
  the first record only.
\<close>

definition wideBuf :: buffer where
  "wideBuf =
     [0x03, 0x7E, 0x0B, 0x03,  2, 0, 0, 0,  65, 0,  11, 0,
      0, 0, 0, 0, 0, 0, 0, 0, 0, 0, 0, 0, 0, 0, 0, 0, 0, 0, 0, 0,
      0x4E, 0x41, 0x4D, 0x45, 0, 0, 0, 0, 0, 0, 0,  0x43,  0, 0, 0, 0,  20,  0,
      0, 0, 0, 0, 0, 0, 0, 0, 0, 0, 0, 0, 0, 0,
      0x0D,
      0x20,  0x48, 0x45, 0x4C, 0x4C, 0x4F, 0x20, 0x20, 0x20, 0x20, 0x20]"

text \<open>
  \<open>cutBuf\<close>: a file cut off inside its first field descriptor: 40 bytes, with a declared
  header length of 40.
\<close>

definition cutBuf :: buffer where
  "cutBuf =
     [0x03, 0x7E, 0x0B, 0x03,  0, 0, 0, 0,  40, 0,  1, 0,
      0, 0, 0, 0, 0, 0, 0, 0, 0, 0, 0, 0, 0, 0, 0, 0, 0, 0, 0, 0,
      0x4E, 0x41, 0x4D, 0x45, 0, 0, 0, 0]"

text \<open>
  \<open>blankBuf\<close>: one field \<^verbatim>\<open>A\<close> of length 1 and one declared record of length 2 whose
  field is a space.
\<close>

definition blankBuf :: buffer where
  "blankBuf =
     [0x03, 0x7E, 0x0B, 0x03,  1, 0, 0, 0,  65, 0,  2, 0,
      0, 0, 0, 0, 0, 0, 0, 0, 0, 0, 0, 0, 0, 0, 0, 0, 0, 0, 0, 0,
      0x41, 0, 0, 0, 0, 0, 0, 0, 0, 0, 0,  0x43,  0, 0, 0, 0,  1,  0,
      0, 0, 0, 0, 0, 0, 0, 0, 0, 0, 0, 0, 0, 0,
      0x0D,
      0x20, 0x20]"

definition aField :: DbfFieldMeta where
  "aField = \<lparr>name = js ''A'', type' = js ''C'', length' = 1, decimalCount = 0\<rparr>"

definition blankResult :: DbfCsvResult where
  "blankResult =
     \<lparr>csv = js ''A'' @ [CR, LF], recordCount = 1, parsedRecords = 1, headerLength = 65,
      recordLength = 2, fields' = [aField]\<rparr>"

text \<open>
  \<open>manyBuf\<close>: ten fields of length 1 whose stored names are all nulls, behind a header of
  353 bytes, and one record of length 11 holding the digits \<^verbatim>\<open>0\<close> to \<^verbatim>\<open>9\<close>.
\<close>

definition manyBuf :: buffer where
  "manyBuf =
     [0x03, 0x7E, 0x0B, 0x03,  1, 0, 0, 0,  0x61, 0x01,  11, 0,
      0, 0, 0, 0, 0, 0, 0, 0, 0, 0, 0, 0, 0, 0, 0, 0, 0, 0, 0, 0,
      0, 0, 0, 0, 0, 0, 0, 0, 0, 0, 0,  0x43,  0, 0, 0, 0,  1,  0,
      0, 0, 0, 0, 0, 0, 0, 0, 0, 0, 0, 0, 0, 0,
      0, 0, 0, 0, 0, 0, 0, 0, 0, 0, 0,  0x43,  0, 0, 0, 0,  1,  0,
      0, 0, 0, 0, 0, 0, 0, 0, 0, 0, 0, 0, 0, 0,
      0, 0, 0, 0, 0, 0, 0, 0, 0, 0, 0,  0x43,  0, 0, 0, 0,  1,  0,
      0, 0, 0, 0, 0, 0, 0, 0, 0, 0, 0, 0, 0, 0,
      0, 0, 0, 0, 0, 0, 0, 0, 0, 0, 0,  0x43,  0, 0, 0, 0,  1,  0,
      0, 0, 0, 0, 0, 0, 0, 0, 0, 0, 0, 0, 0, 0,
      0, 0, 0, 0, 0, 0, 0, 0, 0, 0, 0,  0x43,  0, 0, 0, 0,  1,  0,
      0, 0, 0, 0, 0, 0, 0, 0, 0, 0, 0, 0, 0, 0,
      0, 0, 0, 0, 0, 0, 0, 0, 0, 0, 0,  0x43,  0, 0, 0, 0,  1,  0,
      0, 0, 0, 0, 0, 0, 0, 0, 0, 0, 0, 0, 0, 0,
      0, 0, 0, 0, 0, 0, 0, 0, 0, 0, 0,  0x43,  0, 0, 0, 0,  1,  0,
      0, 0, 0, 0, 0, 0, 0, 0, 0, 0, 0, 0, 0, 0,
      0, 0, 0, 0, 0, 0, 0, 0, 0, 0, 0,  0x43,  0, 0, 0, 0,  1,  0,
      0, 0, 0, 0, 0, 0, 0, 0, 0, 0, 0, 0, 0, 0,
      0, 0, 0, 0, 0, 0, 0, 0, 0, 0, 0,  0x43,  0, 0, 0, 0,  1,  0,
      0, 0, 0, 0, 0, 0, 0, 0, 0, 0, 0, 0, 0, 0,
      0, 0, 0, 0, 0, 0, 0, 0, 0, 0, 0,  0x43,  0, 0, 0, 0,  1,  0,
      0, 0, 0, 0, 0, 0, 0, 0, 0, 0, 0, 0, 0, 0,
      0x0D,
      0x20,  0x30, 0x31, 0x32, 0x33, 0x34, 0x35, 0x36, 0x37, 0x38, 0x39]"

definition numberedField :: "string \<Rightarrow> DbfFieldMeta" where
  "numberedField n =
     \<lparr>name = js (''FIELD_'' @ n), type' = js ''C'', length' = 1, decimalCount = 0\<rparr>"

definition manyFields :: "DbfFieldMeta list" where
  "manyFields =
     [numberedField ''1'', numberedField ''2'', numberedField ''3'', numberedField ''4'',
      numberedField ''5'', numberedField ''6'', numberedField ''7'', numberedField ''8'',
      numberedField ''9'', numberedField ''10'']"

definition manyResult :: DbfCsvResult where
  "manyResult =
     \<lparr>csv = js ''FIELD_1,FIELD_2,FIELD_3,FIELD_4,FIELD_5,FIELD_6,FIELD_7,FIELD_8,FIELD_9,FIELD_10''
             @ [CR, LF] @ js ''0,1,2,3,4,5,6,7,8,9'',
      recordCount = 1, parsedRecords = 1, headerLength = 353, recordLength = 11,
      fields' = manyFields\<rparr>"

text \<open>
  \<open>emptyBuf\<close>: a header of 65 bytes with one field, no declared record and no byte behind
  the header.
\<close>

definition emptyBuf :: buffer where
  "emptyBuf =
     [0x03, 0x7E, 0x0B, 0x03,  0, 0, 0, 0,  65, 0,  11, 0,
      0, 0, 0, 0, 0, 0, 0, 0, 0, 0, 0, 0, 0, 0, 0, 0, 0, 0, 0, 0,
      0x4E, 0x41, 0x4D, 0x45, 0, 0, 0, 0, 0, 0, 0,  0x43,  0, 0, 0, 0,  10,  0,
      0, 0, 0, 0, 0, 0, 0, 0, 0, 0, 0, 0, 0, 0,
      0x0D]"

section \<open>The record scan, characterised\<close>

lemma unat_byte_eq: "unat (b :: byte) = 42 \<longleftrightarrow> b = 42" "unat (b :: byte) = 13 \<longleftrightarrow> b = 13"
  by (simp_all add: word_unat_eq_iff)

lemma readCells_char:
  "off \<le> length buf \<Longrightarrow> readCells buf flds off acc =
     (if off + fieldWidth flds > length buf then Inl RecordBeyondFile
      else Inr (acc @ map escapeCsv (cellsAt buf flds off)))"
proof (induction flds arbitrary: off acc)
  case Nil
  then show ?case by (simp add: fieldWidth_def)
next
  case (Cons field rest)
  show ?case
    by (simp add: Cons.IH fieldWidth_def uint8Array_def add.assoc)
qed

lemma liveFrom_done: "count \<le> k \<Longrightarrow> liveFrom buf ds rl count k = []"
  by (simp add: liveFrom_def)

lemma recordFits_mono:
  "recordFits buf ds rl i \<Longrightarrow> j \<le> i \<Longrightarrow> recordFits buf ds rl j"
proof -
  assume a: "recordFits buf ds rl i" and b: "j \<le> i"
  from b have "j * rl \<le> i * rl" by (rule mult_le_mono1)
  with a show ?thesis unfolding recordFits_def by linarith
qed

lemma liveFrom_truncated:
  "\<not> recordFits buf ds rl k \<Longrightarrow> liveFrom buf ds rl count k = []"
  by (auto simp: liveFrom_def filter_empty_conv dest: recordFits_mono)

lemma liveFrom_step:
  "k < count \<Longrightarrow> liveFrom buf ds rl count k =
     (if recordFits buf ds rl k \<and> \<not> isDeleted buf ds rl k then [k] else [])
     @ liveFrom buf ds rl count (Suc k)"
  by (simp add: liveFrom_def upt_conv_Cons)

lemma scanRecords_char:
  "0 < rl \<Longrightarrow>
   scanRecords buf flds ds rl count k rows parsed =
     (if \<exists>i \<in> set (liveFrom buf ds rl count k). overruns buf flds ds rl i
      then Inl RecordBeyondFile
      else Inr (rows @ map (\<lambda>i. csvRow (recordCells buf flds ds rl i)) (liveFrom buf ds rl count k),
                parsed + length (liveFrom buf ds rl count k)))"
proof (induction buf flds ds rl count k rows parsed rule: scanRecords.induct)
  case (1 buf flds ds rl count k rows parsed)
  show ?case
  proof (cases "k < count")
    case False
    then show ?thesis
      by (subst scanRecords.simps) (simp add: liveFrom_done)
  next
    case lt: True
    show ?thesis
    proof (cases "recordFits buf ds rl k")
      case False
      then show ?thesis
        by (subst scanRecords.simps) (simp add: liveFrom_truncated recordFits_def lt)
    next
      case fits: True
      with \<open>0 < rl\<close> have inb: "ds + k * rl + 1 \<le> length buf"
        by (simp add: recordFits_def)
      show ?thesis
      proof (cases "isDeleted buf ds rl k")
        case True
        then have flag: "unat (buf ! (ds + k * rl)) = 0x2A"
          by (simp add: isDeleted_def unat_byte_eq)
        have "scanRecords buf flds ds rl count k rows parsed
              = scanRecords buf flds ds rl count (k + 1) rows parsed"
          using lt fits inb flag
          by (subst scanRecords.simps) (simp add: recordFits_def getUint8_def)
        also have "\<dots> = (if \<exists>i \<in> set (liveFrom buf ds rl count (k + 1)). overruns buf flds ds rl i
            then Inl RecordBeyondFile
            else Inr (rows @ map (\<lambda>i. csvRow (recordCells buf flds ds rl i)) (liveFrom buf ds rl count (k + 1)),
                parsed + length (liveFrom buf ds rl count (k + 1))))"
          using "1.IH"(1) [OF lt refl _ _ flag] fits inb \<open>0 < rl\<close>
          by (simp add: recordFits_def getUint8_def)
        finally show ?thesis
          using lt True by (simp add: liveFrom_step [OF lt])
      next
        case False
        then have flag: "unat (buf ! (ds + k * rl)) \<noteq> 0x2A"
          by (simp add: isDeleted_def unat_byte_eq)
        have cells: "readCells buf flds (ds + k * rl + 1) []
            = (if overruns buf flds ds rl k then Inl RecordBeyondFile
               else Inr (map escapeCsv (recordCells buf flds ds rl k)))"
          using readCells_char [OF inb, of flds "[]"]
          by (simp add: overruns_def recordCells_def)
        show ?thesis
        proof (cases "overruns buf flds ds rl k")
          case True
          then show ?thesis
            using lt fits inb flag cells False
            by (subst scanRecords.simps)
               (simp add: recordFits_def getUint8_def liveFrom_step [OF lt])
        next
          case no: False
          have "scanRecords buf flds ds rl count k rows parsed
              = scanRecords buf flds ds rl count (k + 1)
                  (rows @ [csvRow (recordCells buf flds ds rl k)]) (parsed + 1)"
            using lt fits inb flag cells no
            by (subst scanRecords.simps) (simp add: recordFits_def getUint8_def csvRow_def)
          also have "\<dots> = (if \<exists>i \<in> set (liveFrom buf ds rl count (k + 1)). overruns buf flds ds rl i
            then Inl RecordBeyondFile
            else Inr ((rows @ [csvRow (recordCells buf flds ds rl k)])
                  @ map (\<lambda>i. csvRow (recordCells buf flds ds rl i)) (liveFrom buf ds rl count (k + 1)),
                (parsed + 1) + length (liveFrom buf ds rl count (k + 1))))"
            using "1.IH"(2) [OF lt refl _ _ flag, of "map escapeCsv (recordCells buf flds ds rl k)"]
              fits inb \<open>0 < rl\<close> cells no
            by (simp add: recordFits_def getUint8_def csvRow_def)
          finally show ?thesis
            using lt False fits no by (simp add: liveFrom_step [OF lt])
        qed
      qed
    qed
  qed
qed


lemma readHeader_Inr:
  "readHeader buf = Inr (count, hl, rl) \<Longrightarrow> 32 \<le> length buf \<and> 0 < hl \<and> 0 < rl \<and> hl \<le> length buf"
  by (auto simp: readHeader_def split: if_splits sum.splits)

lemma convert_char:
  assumes hdr: "readHeader buf = Inr (count, hl, rl)"
    and desc: "parseDescriptors buf hl 32 [] = Inr flds"
    and ne: "flds \<noteq> []"
    and room: "hl + rl \<le> length buf"
  shows "convertDbfToCsv buf =
     (if \<exists>i \<in> set (liveFrom buf hl rl count 0). overruns buf flds hl rl i
      then Inl RecordBeyondFile
      else Inr \<lparr>csv = csvText (map name flds
                               # map (recordCells buf flds hl rl) (liveFrom buf hl rl count 0)),
                recordCount = count, parsedRecords = length (liveFrom buf hl rl count 0),
                headerLength = hl, recordLength = rl, fields' = flds\<rparr>)"
proof -
  from hdr have pos: "0 < rl" by (simp add: readHeader_Inr)
  show ?thesis
    using hdr desc ne room
    by (simp add: convertDbfToCsv_def scanRecords_char [OF pos] csvText_def csvRow_def comp_def)
qed

lemma convert_Inr:
  assumes ok: "convertDbfToCsv buf = Inr r"
  shows "readHeader buf = Inr (recordCount r, headerLength r, recordLength r)
       \<and> parseDescriptors buf (headerLength r) 32 [] = Inr (fields' r)
       \<and> fields' r \<noteq> []
       \<and> headerLength r + recordLength r \<le> length buf"
  using ok
  by (auto simp: convertDbfToCsv_def Let_def split: sum.splits if_splits prod.splits)

section \<open>Reading back what the converter writes\<close>

lemma consChars:
  "foldr consChar v ((cell # row) # rows) = ((v @ cell) # row) # rows"
  by (induction v) simp_all

lemma unquoted_plain:
  "COMMA \<notin> set v \<Longrightarrow> CR \<notin> set v \<Longrightarrow> unquoted (v @ t) = foldr consChar v (unquoted t)"
  by (induction v) auto

lemma doubleQuotes_Nil: "doubleQuotes [] = []"
  by (simp add: doubleQuotes_def)

lemma doubleQuotes_Cons:
  "doubleQuotes (c # v) = (if c = DQUOTE then [DQUOTE, DQUOTE] else [c]) @ doubleQuotes v"
  by (simp add: doubleQuotes_def)

lemma doubleQuotes_plain: "DQUOTE \<notin> set v \<Longrightarrow> doubleQuotes v = v"
  by (induction v) (auto simp: doubleQuotes_Nil doubleQuotes_Cons)

lemma quoted_body:
  "t = [] \<or> hd t \<noteq> DQUOTE \<Longrightarrow>
   quoted (doubleQuotes v @ DQUOTE # t) = foldr consChar v (unquoted t)"
  by (induction v) (auto simp: doubleQuotes_Nil doubleQuotes_Cons)

lemma cellStart_escapeCsv:
  assumes t: "t = [] \<or> hd t = COMMA \<or> hd t = CR"
  shows "cellStart (escapeCsv v @ t) = foldr consChar v (unquoted t)"
proof (cases "needsWrapper v")
  case True
  from t have "t = [] \<or> hd t \<noteq> DQUOTE" by auto
  with True show ?thesis
    by (simp add: escapeCsv_def quoted_body)
next
  case False
  then have plain: "COMMA \<notin> set v" "DQUOTE \<notin> set v" "CR \<notin> set v"
    by (simp_all add: needsWrapper_def)
  have esc: "escapeCsv v = v"
    using False plain by (simp add: escapeCsv_def doubleQuotes_plain)
  show ?thesis
  proof (cases v)
    case Nil
    with t esc show ?thesis by (cases t) auto
  next
    case (Cons c v')
    with plain have "c \<noteq> DQUOTE" by auto
    then have "cellStart (v @ t) = unquoted (v @ t)"
      using Cons by simp
    with esc plain show ?thesis by (simp add: unquoted_plain)
  qed
qed

lemma unquoted_CRLF:
  "unquoted (CR # LF # rest) = (if rest = [] then [[[]]] else newRow (cellStart rest))"
  by simp

lemma cellStart_csvRow:
  "cellStart (csvRow (c # cs)) = [c # cs]"
  "cellStart (csvRow (c # cs) @ CR # LF # rest)
     = (c # cs) # (if rest = [] then [] else cellStart rest)"
proof (induction cs arbitrary: c)
  case Nil
  {
    case 1
    show ?case
      using cellStart_escapeCsv [of "[]" c] by (simp add: csvRow_def consChars)
  next
    case 2
    show ?case
      using cellStart_escapeCsv [of "CR # LF # rest" c]
      by (simp add: csvRow_def consChars newRow_def unquoted_CRLF del: unquoted.simps)
  }
next
  case (Cons c' cs)
  {
    case 1
    have "cellStart (csvRow (c # c' # cs)) = cellStart (escapeCsv c @ COMMA # csvRow (c' # cs))"
      by (simp add: csvRow_def)
    also have "\<dots> = foldr consChar c (newCell (cellStart (csvRow (c' # cs))))"
      using cellStart_escapeCsv [of "COMMA # csvRow (c' # cs)" c] by simp
    finally show ?case by (simp add: Cons.IH(1) consChars)
  next
    case 2
    have "cellStart (csvRow (c # c' # cs) @ CR # LF # rest)
        = cellStart (escapeCsv c @ COMMA # (csvRow (c' # cs) @ CR # LF # rest))"
      by (simp add: csvRow_def)
    also have "\<dots> = foldr consChar c (newCell (cellStart (csvRow (c' # cs) @ CR # LF # rest)))"
      using cellStart_escapeCsv [of "COMMA # (csvRow (c' # cs) @ CR # LF # rest)" c] by simp
    finally show ?case by (simp add: Cons.IH(2) consChars)
  }
qed

lemma doubleQuotes_empty: "doubleQuotes v = [] \<longleftrightarrow> v = []"
  by (cases v) (simp_all add: doubleQuotes_Nil doubleQuotes_Cons)

lemma escapeCsv_empty: "escapeCsv v = [] \<longleftrightarrow> v = []"
  by (auto simp: escapeCsv_def Let_def doubleQuotes_empty needsWrapper_def split: if_splits)

lemma csvRow_empty: "csvRow (c # cs) = [] \<longleftrightarrow> c = [] \<and> cs = []"
  by (cases cs) (simp_all add: csvRow_def escapeCsv_empty)

lemma csvText_empty:
  assumes "table \<noteq> []" and "[] \<notin> set table"
  shows "csvText table = [] \<longleftrightarrow> table = [[[]]]"
proof (cases table)
  case Nil
  with assms show ?thesis by simp
next
  case (Cons row rest)
  with assms obtain c cs where row: "row = c # cs" by (cases row) auto
  show ?thesis
  proof (cases rest)
    case Nil
    with Cons row show ?thesis by (auto simp: csvText_def csvRow_empty)
  next
    case (Cons row' rest')
    with \<open>table = row # rest\<close> show ?thesis by (simp add: csvText_def)
  qed
qed

text \<open>
  Reading back a table: the rows come back as written, except that a last row of one empty
  cell behind another row is read as the ending line break.
\<close>

lemma parseCsv_csvText:
  "table \<noteq> [] \<Longrightarrow> [] \<notin> set table \<Longrightarrow>
   parseCsv (csvText table)
     = (if 2 \<le> length table \<and> last table = [[]] then butlast table else table)"
proof (induction table rule: list_nonempty_induct)
  case (single row)
  then obtain c cs where "row = c # cs" by (cases row) auto
  then show ?case by (simp add: parseCsv_def csvText_def cellStart_csvRow)
next
  case (cons row table)
  then obtain c cs where row: "row = c # cs" by (cases row) auto
  from cons obtain row' table' where tab: "table = row' # table'" by (cases table) auto
  from cons.prems have noNil: "[] \<notin> set table" by simp
  have sep: "csvText (row # table) = csvRow row @ CR # LF # csvText table"
    by (simp add: csvText_def tab)
  show ?case
  proof (cases "csvText table = []")
    case True
    with csvText_empty [OF cons.hyps noNil] have "table = [[[]]]" by simp
    with sep True show ?thesis
      by (simp add: parseCsv_def row cellStart_csvRow)
  next
    case False
    with csvText_empty [OF cons.hyps noNil] have ne: "table \<noteq> [[[]]]" by simp
    have "parseCsv (csvText (row # table)) = row # parseCsv (csvText table)"
      using sep False by (simp add: parseCsv_def row cellStart_csvRow)
    also have "\<dots> = row # (if 2 \<le> length table \<and> last table = [[]] then butlast table
                            else table)"
      using cons.IH [OF noNil] by simp
    also have "\<dots> = (if 2 \<le> length (row # table) \<and> last (row # table) = [[]]
                      then butlast (row # table) else row # table)"
      using ne tab by (cases table') auto
    finally show ?thesis .
  qed
qed

section \<open>The names of the collected fields\<close>

lemma parseDescriptors_names:
  assumes "parseDescriptors buf hl off acc = Inr flds"
    and "off = 32 + 32 * length acc"
    and "\<forall>i < length acc. name (acc ! i) =
           (let s = sanitizeText (take 11 (drop (32 + 32 * i) buf))
            in if s = [] then js ''FIELD_'' @ decimal (i + 1) else s)"
  shows "\<forall>i < length flds. name (flds ! i) =
           (let s = sanitizeText (take 11 (drop (32 + 32 * i) buf))
            in if s = [] then js ''FIELD_'' @ decimal (i + 1) else s)"
  using assms
proof (induction buf hl off acc rule: parseDescriptors.induct)
  case (1 buf hl off acc)
  show ?case
  proof (cases "off < hl")
    case False
    with "1.prems" show ?thesis
      by (subst (asm) parseDescriptors.simps) simp
  next
    case lt: True
    show ?thesis
    proof (cases "getUint8 buf off = Inr 0x0D")
      case True
      with "1.prems" lt show ?thesis
        by (subst (asm) parseDescriptors.simps) simp
    next
      case False
      from "1.prems"(1) lt False obtain marker nameBytes t len dec where
        m: "getUint8 buf off = Inr marker" "marker \<noteq> 0x0D"
        and nb: "uint8Array buf off 11 = Inr nameBytes"
        and t: "getUint8 buf (off + 11) = Inr t"
        and len: "getUint8 buf (off + 16) = Inr len"
        and dec: "getUint8 buf (off + 17) = Inr dec"
        and rec: "parseDescriptors buf hl (off + 32)
           (acc @ [\<lparr>name = (let s = sanitizeText nameBytes
                        in if s \<noteq> [] then s else js ''FIELD_'' @ decimal (length acc + 1)),
                    type' = [of_nat t], length' = len, decimalCount = dec\<rparr>]) = Inr flds"
        by (subst (asm) parseDescriptors.simps) (auto split: sum.splits if_splits)
      from nb have nameBytes: "nameBytes = take 11 (drop off buf)"
        by (auto simp: uint8Array_def split: if_splits)
      show ?thesis
      proof (rule "1.IH" [OF lt m(1) m(2) nb refl t len dec rec])
        show "off + 32 = 32 + 32 * length (acc @ [\<lparr>name = (let s = sanitizeText nameBytes
                        in if s \<noteq> [] then s else js ''FIELD_'' @ decimal (length acc + 1)),
                    type' = [of_nat t], length' = len, decimalCount = dec\<rparr>])"
          using "1.prems"(2) by simp
      next
        show "\<forall>i<length (acc @ [\<lparr>name = (let s = sanitizeText nameBytes
                        in if s \<noteq> [] then s else js ''FIELD_'' @ decimal (length acc + 1)),
                    type' = [of_nat t], length' = len, decimalCount = dec\<rparr>]).
          name ((acc @ [\<lparr>name = (let s = sanitizeText nameBytes
                        in if s \<noteq> [] then s else js ''FIELD_'' @ decimal (length acc + 1)),
                    type' = [of_nat t], length' = len, decimalCount = dec\<rparr>]) ! i) =
           (let s = sanitizeText (take 11 (drop (32 + 32 * i) buf))
            in if s = [] then js ''FIELD_'' @ decimal (i + 1) else s)"
          using "1.prems"(2,3) nameBytes
          by (auto simp: nth_append less_Suc_eq Let_def)
      qed
    qed
  qed
qed

section \<open>Quoting\<close>

lemma escapeCsv_example: \<open>escapeCsv (js ''He said "hi", ok'') = js ''"He said ""hi"", ok"''\<close>
  by (simp add: escapeCsv_def doubleQuotes_def needsWrapper_def js_def)

lemma wrapped_escapeCsv: "wrapped (escapeCsv v) \<longleftrightarrow> needsWrapper v"
proof (cases "needsWrapper v")
  case True
  then show ?thesis by (simp add: escapeCsv_def wrapped_def)
next
  case False
  then have "DQUOTE \<notin> set v" by (simp add: needsWrapper_def)
  then have "escapeCsv v = v" and "hd v \<noteq> DQUOTE \<or> v = []"
    using False by (cases v; auto simp: escapeCsv_def doubleQuotes_plain)+
  with False show ?thesis by (cases v) (auto simp: wrapped_def)
qed

section \<open>The sample files, converted\<close>

lemma scanRecords_done:
  "count \<le> k \<Longrightarrow> scanRecords buf flds ds rl count k rows parsed = Inr (rows, parsed)"
  by (subst scanRecords.simps) simp

lemma decimal_digit: "n < 10 \<Longrightarrow> decimal n = [0x30 + of_nat n]"
  by (subst decimal.simps) simp

text \<open>A header of at most 65535 bytes holds at most 2047 descriptors.\<close>

lemma decimal_2047: "decimal 2047 = js ''2047''"
  by (simp add: decimal.simps [of 2047] decimal.simps [of 204] decimal.simps [of 20]
        decimal_digit js_def)

lemmas sanitize_defs =
  sanitizeText_def decode_def windows1252_def trim_def isWhiteSpace_def

lemmas escape_defs = escapeCsv_def doubleQuotes_def needsWrapper_def

lemmas read_defs = getUint8_def getUint16_def getUint32_def uint8Array_def

lemma length_sampleBuf: "length sampleBuf = 111"
  by (simp add: sampleBuf_def)

lemma readHeader_sampleBuf: "readHeader sampleBuf = Inr (4, 97, 4)"
  by (simp add: readHeader_def read_defs sampleBuf_def)

lemma parseDescriptors_sampleBuf: "parseDescriptors sampleBuf 97 32 [] = Inr sampleFields"
  by (simp add: parseDescriptors.simps [of _ _ 32] parseDescriptors.simps [of _ _ 64]
        parseDescriptors.simps [of _ _ 96] read_defs sampleBuf_def sanitize_defs
        decimal_digit js_def sampleFields_def)

lemma upt_4: "[0..<4] = [0, 1, 2, 3]" "[0..<2] = [0, 1]" "[0..<1] = [0]"
  by (simp_all add: upt_conv_Cons)

lemma liveFrom_sampleBuf: "liveFrom sampleBuf 97 4 4 0 = [0, 2]"
  by (simp add: liveFrom_def upt_4 recordFits_def isDeleted_def sampleBuf_def)

lemma convert_sampleBuf:
  "convertDbfToCsv sampleBuf = Inr sampleResult"
proof -
  have cells: "recordCells sampleBuf sampleFields 97 4 0 = [js ''a'', js ''bc'']"
    "recordCells sampleBuf sampleFields 97 4 2 = [js ''1'', js '',2'']"
    by (simp_all add: recordCells_def sampleFields_def sampleBuf_def sanitize_defs js_def)
  have "convertDbfToCsv sampleBuf =
      Inr \<lparr>csv = csvText [map name sampleFields, [js ''a'', js ''bc''], [js ''1'', js '',2'']],
          recordCount = 4, parsedRecords = 2, headerLength = 97, recordLength = 4,
          fields' = sampleFields\<rparr>"
  proof -
    have "fieldWidth sampleFields = 3" "sampleFields \<noteq> []"
      by (simp_all add: fieldWidth_def sampleFields_def)
    then show ?thesis
      using convert_char [OF readHeader_sampleBuf parseDescriptors_sampleBuf]
      by (simp add: liveFrom_sampleBuf cells length_sampleBuf overruns_def)
  qed
  also have "csvText [map name sampleFields, [js ''a'', js ''bc''], [js ''1'', js '',2'']]
     = js ''ID,FIELD_2'' @ [CR, LF] @ js ''a,bc'' @ [CR, LF]
                 @ js ''1,'' @ [DQUOTE] @ js '',2'' @ [DQUOTE]"
    by (simp add: csvText_def csvRow_def sampleFields_def escape_defs js_def)
  finally show ?thesis by (simp add: sampleResult_def)
qed

lemma sanitize_NAME: "sanitizeText [0x4E, 0x41, 0x4D, 0x45, 0, 0, 0, 0, 0, 0, 0] = js ''NAME''"
  by (simp add: sanitize_defs js_def)

lemma sanitize_HELLO:
  "sanitizeText [0x48, 0x45, 0x4C, 0x4C, 0x4F, 0x20, 0x20, 0x20, 0x20, 0x20] = js ''HELLO''"
  by (simp add: sanitize_defs js_def)

lemma escape_NAME: "escapeCsv (js ''NAME'') = js ''NAME''"
  by (simp add: escape_defs js_def)

lemma escape_HELLO: "escapeCsv (js ''HELLO'') = js ''HELLO''"
  by (simp add: escape_defs js_def)

lemma readHeader_tailBuf: "readHeader tailBuf = Inr (1, 65, 11)"
  by (simp add: readHeader_def read_defs tailBuf_def)

lemma parseDescriptors_tailBuf: "parseDescriptors tailBuf 65 32 [] = Inr [nameField 11]"
  by (simp add: parseDescriptors.simps [of _ _ 32] parseDescriptors.simps [of _ _ 64]
        read_defs tailBuf_def sanitize_NAME js_def nameField_def)

lemma liveFrom_tailBuf: "liveFrom tailBuf 65 11 1 0 = [0]"
  by (simp add: liveFrom_def upt_4 recordFits_def isDeleted_def tailBuf_def)

lemma convert_tailBuf:
  "convertDbfToCsv tailBuf =
     Inr \<lparr>csv = js ''NAME'' @ [CR, LF] @ js ''HELLO'' @ [0x20, 0x20, 0x20, 0x20, 0x20, 0x1A],
          recordCount = 1, parsedRecords = 1, headerLength = 65, recordLength = 11,
          fields' = [nameField 11]\<rparr>"
proof -
  have cells: "recordCells tailBuf [nameField 11] 65 11 0
      = [js ''HELLO'' @ [0x20, 0x20, 0x20, 0x20, 0x20, 0x1A]]"
    by (simp add: recordCells_def nameField_def tailBuf_def sanitize_defs js_def)
  have out: "csvText [[name (nameField 11)], [js ''HELLO'' @ [0x20, 0x20, 0x20, 0x20, 0x20, 0x1A]]]
      = js ''NAME'' @ [CR, LF] @ js ''HELLO'' @ [0x20, 0x20, 0x20, 0x20, 0x20, 0x1A]"
    by (simp add: csvText_def csvRow_def nameField_def escape_defs js_def)
  have "fieldWidth [nameField 11] = 11" "length tailBuf = 77"
    by (simp_all add: fieldWidth_def nameField_def tailBuf_def)
  then show ?thesis
    using convert_char [OF readHeader_tailBuf parseDescriptors_tailBuf]
    unfolding liveFrom_tailBuf
    by (simp add: cells overruns_def out)
qed

lemma readHeader_wideBuf: "readHeader wideBuf = Inr (2, 65, 11)"
  by (simp add: readHeader_def read_defs wideBuf_def)

lemma parseDescriptors_wideBuf: "parseDescriptors wideBuf 65 32 [] = Inr [nameField 20]"
  by (simp add: parseDescriptors.simps [of _ _ 32] parseDescriptors.simps [of _ _ 64]
        read_defs wideBuf_def sanitize_NAME js_def nameField_def)

lemma liveFrom_wideBuf: "liveFrom wideBuf 65 11 2 0 = [0]"
  by (simp add: liveFrom_def upt_4 recordFits_def isDeleted_def wideBuf_def)

lemma overruns_wideBuf: "overruns wideBuf [nameField 20] 65 11 0"
  by (simp add: overruns_def fieldWidth_def nameField_def wideBuf_def)

lemma convert_wideBuf: "convertDbfToCsv wideBuf = Inl RecordBeyondFile"
proof -
  have "length wideBuf = 76"
    by (simp add: wideBuf_def)
  then show ?thesis
    using convert_char [OF readHeader_wideBuf parseDescriptors_wideBuf] overruns_wideBuf
    unfolding liveFrom_wideBuf
    by simp
qed

lemma readHeader_cutBuf: "readHeader cutBuf = Inr (0, 40, 1)"
  by (simp add: readHeader_def read_defs cutBuf_def)

lemma parseDescriptors_cutBuf: "parseDescriptors cutBuf 40 32 [] = Inl RangeError"
  by (simp add: parseDescriptors.simps [of _ _ 32] read_defs cutBuf_def)

lemma readHeader_emptyBuf: "readHeader emptyBuf = Inr (0, 65, 11)"
  by (simp add: readHeader_def read_defs emptyBuf_def)

lemma parseDescriptors_emptyBuf: "parseDescriptors emptyBuf 65 32 [] = Inr [nameField 10]"
  by (simp add: parseDescriptors.simps [of _ _ 32] parseDescriptors.simps [of _ _ 64]
        read_defs emptyBuf_def sanitize_NAME js_def nameField_def)

lemma convert_Inr_char:
  assumes ok: "convertDbfToCsv buf = Inr r"
  shows "csv r = csvText (map name (fields' r)
                   # map (recordCells buf (fields' r) (headerLength r) (recordLength r))
                       (liveFrom buf (headerLength r) (recordLength r) (recordCount r) 0))"
    and "parsedRecords r = length (liveFrom buf (headerLength r) (recordLength r) (recordCount r) 0)"
    and "\<forall>i \<in> set (liveFrom buf (headerLength r) (recordLength r) (recordCount r) 0).
           \<not> overruns buf (fields' r) (headerLength r) (recordLength r) i"
proof -
  from convert_Inr [OF ok] have
    hdr: "readHeader buf = Inr (recordCount r, headerLength r, recordLength r)"
    and desc: "parseDescriptors buf (headerLength r) 32 [] = Inr (fields' r)"
    and ne: "fields' r \<noteq> []"
    and room: "headerLength r + recordLength r \<le> length buf"
    by simp_all
  note c = convert_char [OF hdr desc ne room]
  from c ok show no: "\<forall>i \<in> set (liveFrom buf (headerLength r) (recordLength r) (recordCount r) 0).
           \<not> overruns buf (fields' r) (headerLength r) (recordLength r) i"
    by (auto split: if_splits)
  from c ok no have "r = \<lparr>csv = csvText (map name (fields' r)
                   # map (recordCells buf (fields' r) (headerLength r) (recordLength r))
                       (liveFrom buf (headerLength r) (recordLength r) (recordCount r) 0)),
                recordCount = recordCount r,
                parsedRecords = length (liveFrom buf (headerLength r) (recordLength r) (recordCount r) 0),
                headerLength = headerLength r, recordLength = recordLength r,
                fields' = fields' r\<rparr>"
    by (simp split: if_splits)
  then have "csv r = csv \<lparr>csv = csvText (map name (fields' r)
                   # map (recordCells buf (fields' r) (headerLength r) (recordLength r))
                       (liveFrom buf (headerLength r) (recordLength r) (recordCount r) 0)),
                recordCount = recordCount r,
                parsedRecords = length (liveFrom buf (headerLength r) (recordLength r) (recordCount r) 0),
                headerLength = headerLength r, recordLength = recordLength r,
                fields' = fields' r\<rparr>"
     and "parsedRecords r = parsedRecords \<lparr>csv = csvText (map name (fields' r)
                   # map (recordCells buf (fields' r) (headerLength r) (recordLength r))
                       (liveFrom buf (headerLength r) (recordLength r) (recordCount r) 0)),
                recordCount = recordCount r,
                parsedRecords = length (liveFrom buf (headerLength r) (recordLength r) (recordCount r) 0),
                headerLength = headerLength r, recordLength = recordLength r,
                fields' = fields' r\<rparr>"
    by simp_all
  then show "csv r = csvText (map name (fields' r)
                   # map (recordCells buf (fields' r) (headerLength r) (recordLength r))
                       (liveFrom buf (headerLength r) (recordLength r) (recordCount r) 0))"
    and "parsedRecords r = length (liveFrom buf (headerLength r) (recordLength r) (recordCount r) 0)"
    by simp_all
qed

lemma three_way_count:
  "length (filter (\<lambda>i. P i \<and> \<not> Q i) xs) + length (filter (\<lambda>i. P i \<and> Q i) xs)
     + length (filter (\<lambda>i. \<not> P i) xs) = length xs"
  by (induction xs) auto

lemma set_liveFrom:
  "set (liveFrom buf ds rl count 0) =
     {i. i < count \<and> recordFits buf ds rl i \<and> \<not> isDeleted buf ds rl i}"
  by (auto simp: liveFrom_def)

lemma liveFrom_before_truncated:
  assumes "\<not> recordFits buf ds rl k" and "k \<le> count"
  shows "liveFrom buf ds rl count 0 = liveFrom buf ds rl k 0"
proof -
  from assms(2) obtain d where d: "count = k + d"
    by (auto simp: le_iff_add)
  have "[0..<k + d] = [0..<k] @ [k..<k + d]"
    by (rule upt_add_eq_append) simp
  with d have "[0..<count] = [0..<k] @ [k..<count]"
    by simp
  then have "liveFrom buf ds rl count 0 = liveFrom buf ds rl k 0 @ liveFrom buf ds rl count k"
    by (simp add: liveFrom_def)
  with liveFrom_truncated [OF assms(1)] show ?thesis by simp
qed

lemma liveFrom_sampleBuf_3: "liveFrom sampleBuf 97 4 3 0 = [0, 2]"
  using liveFrom_before_truncated [of sampleBuf 97 4 3 4] liveFrom_sampleBuf
  by (simp add: recordFits_def sampleBuf_def)

lemma length_cellsAt: "length (cellsAt buf flds off) = length flds"
  by (induction flds arbitrary: off) simp_all

lemma convert_cutBuf: "convertDbfToCsv cutBuf = Inl RangeError"
  using readHeader_cutBuf parseDescriptors_cutBuf by (simp add: convertDbfToCsv_def)

lemma readHeader_no_RangeError: "readHeader buf \<noteq> Inl RangeError"
  by (auto simp: readHeader_def read_defs split: sum.splits)

lemma RangeError_source:
  "convertDbfToCsv buf = Inl RangeError \<longleftrightarrow>
     (\<exists>count hl rl. readHeader buf = Inr (count, hl, rl)
        \<and> parseDescriptors buf hl 32 [] = Inl RangeError)"
proof (cases "readHeader buf")
  case (Inl e)
  with readHeader_no_RangeError [of buf] show ?thesis
    by (simp add: convertDbfToCsv_def)
next
  case (Inr h)
  then obtain count hl rl where hdr: "readHeader buf = Inr (count, hl, rl)"
    by (cases h) auto
  show ?thesis
  proof (cases "parseDescriptors buf hl 32 []")
    case (Inl e)
    with hdr show ?thesis by (simp add: convertDbfToCsv_def)
  next
    case desc: (Inr flds)
    show ?thesis
    proof (cases "flds = [] \<or> length buf < hl + rl")
      case True
      with hdr desc show ?thesis by (auto simp: convertDbfToCsv_def)
    next
      case False
      with convert_char [OF hdr desc] hdr desc show ?thesis by simp
    qed
  qed
qed

lemma counts_sampleBuf: "deletedCount sampleBuf 97 4 4 = 1" "truncatedCount sampleBuf 97 4 4 = 1"
  by (simp_all add: deletedCount_def truncatedCount_def upt_4 recordFits_def isDeleted_def
        sampleBuf_def)

lemma sampleResult_sel:
  "recordCount sampleResult = 4" "parsedRecords sampleResult = 2"
  "headerLength sampleResult = 97" "recordLength sampleResult = 4"
  "fields' sampleResult = sampleFields"
  by (simp_all add: sampleResult_def)

lemma parseCsv_convert:
  assumes ok: "convertDbfToCsv buf = Inr r"
  shows "parseCsv (csv r) =
           map name (fields' r)
           # map (recordCells buf (fields' r) (headerLength r) (recordLength r))
               (if lastRowBlank buf (fields' r) (headerLength r) (recordLength r) (recordCount r)
                then butlast (liveFrom buf (headerLength r) (recordLength r) (recordCount r) 0)
                else liveFrom buf (headerLength r) (recordLength r) (recordCount r) 0)"
proof -
  let ?live = "liveFrom buf (headerLength r) (recordLength r) (recordCount r) 0"
  let ?cells = "recordCells buf (fields' r) (headerLength r) (recordLength r)"
  let ?table = "map name (fields' r) # map ?cells ?live"
  from convert_Inr [OF ok] have ne: "fields' r \<noteq> []" by simp
  then have noNil: "[] \<notin> set ?table"
    by (auto simp: recordCells_def dest: arg_cong [where f = length] simp: length_cellsAt)
  have "parseCsv (csv r) = parseCsv (csvText ?table)"
    by (simp only: convert_Inr_char(1) [OF ok])
  also have "\<dots> = (if 2 \<le> length ?table \<and> last ?table = [[]] then butlast ?table else ?table)"
    by (rule parseCsv_csvText) (simp, rule noNil)
  also have "\<dots> = map name (fields' r) # map ?cells
       (if lastRowBlank buf (fields' r) (headerLength r) (recordLength r) (recordCount r)
        then butlast ?live else ?live)"
  proof (cases "?live = []")
    case True
    then show ?thesis by (simp add: lastRowBlank_def)
  next
    case False
    then have "2 \<le> length ?table" "last ?table = ?cells (last ?live)"
      "butlast ?table = map name (fields' r) # map ?cells (butlast ?live)"
      by (simp_all add: Suc_le_eq last_map map_butlast)
    with False show ?thesis by (simp add: lastRowBlank_def)
  qed
  finally show ?thesis .
qed

lemma lastRowBlank_one_field:
  "lastRowBlank buf flds ds rl count \<Longrightarrow> length flds = 1"
  by (auto simp: lastRowBlank_def recordCells_def dest: arg_cong [where f = length]
        simp: length_cellsAt)

lemma readHeader_blankBuf: "readHeader blankBuf = Inr (1, 65, 2)"
  by (simp add: readHeader_def read_defs blankBuf_def)

lemma parseDescriptors_blankBuf: "parseDescriptors blankBuf 65 32 [] = Inr [aField]"
  by (simp add: parseDescriptors.simps [of _ _ 32] parseDescriptors.simps [of _ _ 64]
        read_defs blankBuf_def sanitize_defs js_def aField_def)

lemma liveFrom_blankBuf: "liveFrom blankBuf 65 2 1 0 = [0]"
  by (simp add: liveFrom_def upt_4 recordFits_def isDeleted_def blankBuf_def)

lemma recordCells_blankBuf: "recordCells blankBuf [aField] 65 2 0 = [[]]"
  by (simp add: recordCells_def aField_def blankBuf_def sanitize_defs)

lemma lastRowBlank_blankBuf: "lastRowBlank blankBuf [aField] 65 2 1"
  unfolding lastRowBlank_def liveFrom_blankBuf by (simp add: recordCells_blankBuf)

lemma blankResult_sel:
  "recordCount blankResult = 1" "parsedRecords blankResult = 1"
  "headerLength blankResult = 65" "recordLength blankResult = 2"
  "fields' blankResult = [aField]" "csv blankResult = js ''A'' @ [CR, LF]"
  by (simp_all add: blankResult_def)

lemma convert_blankBuf: "convertDbfToCsv blankBuf = Inr blankResult"
proof -
  have out: "csvText [[name aField], [[]]] = js ''A'' @ [CR, LF]"
    by (simp add: csvText_def csvRow_def aField_def escape_defs js_def)
  have "fieldWidth [aField] = 1" "length blankBuf = 67"
    by (simp_all add: fieldWidth_def aField_def blankBuf_def)
  then have "convertDbfToCsv blankBuf =
      Inr \<lparr>csv = js ''A'' @ [CR, LF], recordCount = 1, parsedRecords = 1, headerLength = 65,
           recordLength = 2, fields' = [aField]\<rparr>"
    using convert_char [OF readHeader_blankBuf parseDescriptors_blankBuf]
    unfolding liveFrom_blankBuf
    by (simp add: recordCells_blankBuf overruns_def out)
  then show ?thesis by (simp add: blankResult_def)
qed

lemma parseCsv_blankResult: "parseCsv (js ''A'' @ [CR, LF]) = [[js ''A'']]"
  by (simp add: parseCsv_def js_def)

lemma not_lastRowBlank_sampleBuf: "\<not> lastRowBlank sampleBuf sampleFields 97 4 4"
  using lastRowBlank_one_field [of sampleBuf sampleFields 97 4 4]
  by (auto simp: sampleFields_def)

section \<open>The decimal numeral of the placeholder\<close>

lemma unat_digit: "d < 10 \<Longrightarrow> unat (0x30 + of_nat d :: jschar) = 48 + d"
  by (simp add: unat_word_ariths unat_of_nat)

lemma digit_range:
  "d < 10 \<Longrightarrow> (0x30 :: jschar) \<le> 0x30 + of_nat d \<and> 0x30 + of_nat d \<le> (0x39 :: jschar)"
  by (simp add: word_le_nat_alt unat_digit)

lemma digit_is_zero: "d < 10 \<Longrightarrow> (0x30 + of_nat d :: jschar) = 0x30 \<longleftrightarrow> d = 0"
  by (simp add: word_unat_eq_iff unat_digit)

lemma digit_of_char:
  assumes "(0x30 :: jschar) \<le> c" and "c \<le> 0x39"
  shows "unat c - 48 < 10" and "c = 0x30 + of_nat (unat c - 48)"
proof -
  from assms have r: "48 \<le> unat c" "unat c \<le> 57"
    by (simp_all add: word_le_nat_alt)
  then show d: "unat c - 48 < 10" by simp
  from r have "unat (0x30 + of_nat (unat c - 48) :: jschar) = unat c"
    by (simp add: unat_digit [OF d])
  then show "c = 0x30 + of_nat (unat c - 48)"
    by (simp add: word_unat_eq_iff)
qed

lemma digitsValue_Nil: "digitsValue [] = 0"
  by (simp add: digitsValue_def)

lemma digitsValue_snoc: "digitsValue (ds @ [c]) = 10 * digitsValue ds + (unat c - 48)"
  by (simp add: digitsValue_def)

lemma digitsValue_zero:
  "\<forall>c \<in> set ds. 0x30 \<le> c \<and> c \<le> 0x39 \<Longrightarrow> digitsValue ds = 0 \<Longrightarrow> \<forall>c \<in> set ds. c = 0x30"
proof (induction ds rule: rev_induct)
  case Nil
  then show ?case by simp
next
  case (snoc c ds)
  from snoc.prems(2) have v: "digitsValue ds = 0" "unat c - 48 = 0"
    by (simp_all add: digitsValue_snoc)
  from snoc.prems(1) have "0x30 \<le> c" "c \<le> 0x39" by simp_all
  from digit_of_char(2) [OF this] v(2) have "c = 0x30" by simp
  with snoc.IH v(1) snoc.prems(1) show ?case by simp
qed

lemma decimal_isDecimalOf: "isDecimalOf (decimal n) n"
proof (induction n rule: decimal.induct)
  case (1 n)
  show ?case
  proof (cases "n < 10")
    case True
    then show ?thesis
      using digit_range [OF True]
      by (simp add: decimal.simps [of n] isDecimalOf_def digitsValue_def unat_digit)
  next
    case False
    then have ih: "isDecimalOf (decimal (n div 10)) (n div 10)"
      by (rule "1.IH")
    have d: "n mod 10 < 10" by simp
    have dec: "decimal n = decimal (n div 10) @ [0x30 + of_nat (n mod 10)]"
      using False by (subst decimal.simps) simp
    from ih have ne: "decimal (n div 10) \<noteq> []" by (simp add: isDecimalOf_def)
    have "hd (decimal (n div 10)) \<noteq> 0x30"
    proof
      assume "hd (decimal (n div 10)) = 0x30"
      with ih have "decimal (n div 10) = [0x30]" by (simp add: isDecimalOf_def)
      with ih have "n div 10 = 0" by (simp add: isDecimalOf_def digitsValue_def)
      with False show False by simp
    qed
    with ih ne digit_range [OF d] show ?thesis
      by (simp add: dec isDecimalOf_def digitsValue_snoc unat_digit [OF d])
  qed
qed

lemma isDecimalOf_unique: "isDecimalOf ds n \<Longrightarrow> ds = decimal n"
proof (induction n arbitrary: ds rule: decimal.induct)
  case (1 n)
  from "1.prems" have ne: "ds \<noteq> []" and rng: "\<forall>c \<in> set ds. 0x30 \<le> c \<and> c \<le> 0x39"
    and lead: "hd ds = 0x30 \<longrightarrow> ds = [0x30]" and val: "digitsValue ds = n"
    by (simp_all add: isDecimalOf_def)
  from ne obtain xs c where ds: "ds = xs @ [c]"
    by (cases ds rule: rev_cases) auto
  from rng ds have c: "0x30 \<le> c" "c \<le> 0x39" by simp_all
  note dc = digit_of_char [OF c]
  from val ds have n: "n = 10 * digitsValue xs + (unat c - 48)"
    by (simp add: digitsValue_snoc)
  show ?case
  proof (cases "n < 10")
    case True
    with n have z: "digitsValue xs = 0" and nd: "unat c - 48 = n" by simp_all
    have "xs = []"
    proof (rule ccontr)
      assume xs: "xs \<noteq> []"
      from rng ds have "\<forall>c \<in> set xs. 0x30 \<le> c \<and> c \<le> 0x39" by simp
      from digitsValue_zero [OF this z] xs have "hd xs = 0x30" by (cases xs) auto
      with xs ds have "hd ds = 0x30" by simp
      with lead ds xs show False by simp
    qed
    with ds dc(2) nd True show ?thesis
      by (simp add: decimal.simps [of n])
  next
    case False
    with n dc(1) have xs: "xs \<noteq> []"
      by (auto simp: digitsValue_Nil)
    from n dc(1) have q: "n div 10 = digitsValue xs" and m: "n mod 10 = unat c - 48"
      by simp_all
    have "hd xs \<noteq> 0x30"
    proof
      assume "hd xs = 0x30"
      with xs ds have "hd ds = 0x30" by simp
      with lead ds xs show False by simp
    qed
    with xs rng ds q have "isDecimalOf xs (n div 10)"
      by (simp add: isDecimalOf_def)
    from "1.IH" [OF False this] have "xs = decimal (n div 10)" .
    with ds dc(2) m False show ?thesis
      by (simp add: decimal.simps [of n])
  qed
qed


lemma decimal_10: "decimal 10 = js ''10''"
  by (simp add: decimal.simps [of 10] decimal_digit js_def)

lemma decimal_Suc_10:
  "decimal (Suc (Suc (Suc (Suc (Suc (Suc (Suc (Suc (Suc (Suc 0)))))))))) = js ''10''"
proof -
  have "Suc (Suc (Suc (Suc (Suc (Suc (Suc (Suc (Suc (Suc 0))))))))) = 10" by simp
  then show ?thesis by (simp only: decimal_10)
qed

lemma readHeader_manyBuf: "readHeader manyBuf = Inr (1, 353, 11)"
  by (simp add: readHeader_def read_defs manyBuf_def)

lemma sanitize_nulls: "sanitizeText [0, 0, 0, 0, 0, 0, 0, 0, 0, 0, 0] = []"
  by (simp add: sanitize_defs)

lemma parseDescriptors_manyBuf: "parseDescriptors manyBuf 353 32 [] = Inr manyFields"
  by (simp add: parseDescriptors.simps [of _ _ 32] parseDescriptors.simps [of _ _ 64]
        parseDescriptors.simps [of _ _ 96] parseDescriptors.simps [of _ _ 128]
        parseDescriptors.simps [of _ _ 160] parseDescriptors.simps [of _ _ 192]
        parseDescriptors.simps [of _ _ 224] parseDescriptors.simps [of _ _ 256]
        parseDescriptors.simps [of _ _ 288] parseDescriptors.simps [of _ _ 320]
        parseDescriptors.simps [of _ _ 352]
        read_defs manyBuf_def sanitize_nulls decimal_digit decimal_Suc_10)
     (simp add: manyFields_def numberedField_def js_def)

lemma liveFrom_manyBuf: "liveFrom manyBuf 353 11 1 0 = [0]"
  by (simp add: liveFrom_def upt_4 recordFits_def isDeleted_def manyBuf_def)

lemma recordCells_manyBuf:
  "recordCells manyBuf manyFields 353 11 0 =
     [js ''0'', js ''1'', js ''2'', js ''3'', js ''4'', js ''5'', js ''6'', js ''7'', js ''8'',
      js ''9'']"
  by (simp add: recordCells_def manyFields_def numberedField_def manyBuf_def sanitize_defs
        js_def)

lemma manyResult_sel:
  "recordCount manyResult = 1" "parsedRecords manyResult = 1"
  "headerLength manyResult = 353" "recordLength manyResult = 11"
  "fields' manyResult = manyFields"
  by (simp_all add: manyResult_def)

lemma convert_manyBuf: "convertDbfToCsv manyBuf = Inr manyResult"
proof -
  have out: "csvText [map name manyFields,
       [js ''0'', js ''1'', js ''2'', js ''3'', js ''4'', js ''5'', js ''6'', js ''7'',
        js ''8'', js ''9'']]
     = js ''FIELD_1,FIELD_2,FIELD_3,FIELD_4,FIELD_5,FIELD_6,FIELD_7,FIELD_8,FIELD_9,FIELD_10''
         @ [CR, LF] @ js ''0,1,2,3,4,5,6,7,8,9''"
    by (simp add: csvText_def csvRow_def manyFields_def numberedField_def escape_defs js_def)
  have w: "fieldWidth manyFields = 10" "length manyBuf = 364" "manyFields \<noteq> []"
    by (simp_all add: fieldWidth_def manyFields_def numberedField_def manyBuf_def)
  have "convertDbfToCsv manyBuf =
      Inr \<lparr>csv = csvText [map name manyFields,
                 [js ''0'', js ''1'', js ''2'', js ''3'', js ''4'', js ''5'', js ''6'', js ''7'',
                  js ''8'', js ''9'']],
           recordCount = 1, parsedRecords = 1, headerLength = 353, recordLength = 11,
           fields' = manyFields\<rparr>"
    using convert_char [OF readHeader_manyBuf parseDescriptors_manyBuf] w
    unfolding liveFrom_manyBuf
    by (simp add: recordCells_manyBuf overruns_def)
  then show ?thesis
    unfolding out by (simp add: manyResult_def)
qed

section \<open>The claims\<close>

text \<open>
  C3. The file of 76 bytes made of a preamble of 32 bytes declaring 1 record, a header of
  65 bytes and records of 11 bytes, one field descriptor (name \<^verbatim>\<open>NAME\<close> padded with
  nulls, type \<^verbatim>\<open>C\<close>, length 10), the terminator \<open>0x0D\<close> and one record (flag \<open>0x20\<close>,
  then \<^verbatim>\<open>HELLO\<close> and five spaces) converts to the CSV text \<^verbatim>\<open>NAME\<close> CR LF \<^verbatim>\<open>HELLO\<close>
  with one parsed record, one declared record, header length 65, record length 11 and
  exactly one field. The bytes the layout leaves unused are arbitrary.
\<close>

theorem minimal_file_converts:
  "convertDbfToCsv
     [p0, p1, p2, p3,  1, 0, 0, 0,  65, 0,  11, 0,
      q0, q1, q2, q3, q4, q5, q6, q7, q8, q9, q10, q11, q12, q13, q14, q15, q16, q17, q18, q19,
      0x4E, 0x41, 0x4D, 0x45, 0, 0, 0, 0, 0, 0, 0,  0x43,  r0, r1, r2, r3,  10,  d,
      s0, s1, s2, s3, s4, s5, s6, s7, s8, s9, s10, s11, s12, s13,
      0x0D,
      0x20,  0x48, 0x45, 0x4C, 0x4C, 0x4F, 0x20, 0x20, 0x20, 0x20, 0x20]
   = Inr \<lparr>csv = js ''NAME'' @ [CR, LF] @ js ''HELLO'', recordCount = 1, parsedRecords = 1,
          headerLength = 65, recordLength = 11,
          fields' = [\<lparr>name = js ''NAME'', type' = js ''C'', length' = 10,
                      decimalCount = unat d\<rparr>]\<rparr>"
  by (simp add: convertDbfToCsv_def readHeader_def read_defs
        parseDescriptors.simps [of _ _ 32] parseDescriptors.simps [of _ _ 64]
        scanRecords.simps [of _ _ _ _ _ 0] scanRecords_done
        sanitize_NAME sanitize_HELLO escape_NAME escape_HELLO)
     (simp add: js_def escape_defs)

text \<open>
  C6. The cell written for a value is wrapped in double quotes exactly when the value
  contains a comma, a double quote, LF or CR; the wrapped text is the value with every double
  quote doubled, an unwrapped cell is the value itself, and either way the cell reads back
  as the value. The value \<^verbatim>\<open>He said "hi", ok\<close> is written \<^verbatim>\<open>"He said ""hi"", ok"\<close>.
  Field names go through the same function.
\<close>

theorem escapeCsv_quoting:
  \<open>(wrapped (escapeCsv v) \<longleftrightarrow> COMMA \<in> set v \<or> DQUOTE \<in> set v \<or> LF \<in> set v \<or> CR \<in> set v)
   \<and> escapeCsv v =
       (if COMMA \<in> set v \<or> DQUOTE \<in> set v \<or> LF \<in> set v \<or> CR \<in> set v
        then [DQUOTE] @ doubleQuotes v @ [DQUOTE] else v)
   \<and> parseCsv (escapeCsv v) = [[v]]
   \<and> escapeCsv (js ''He said "hi", ok'') = js ''"He said ""hi"", ok"''\<close>
proof -
  have "parseCsv (escapeCsv v) = [[v]]"
    using cellStart_csvRow(1) [of v "[]"] by (simp add: parseCsv_def csvRow_def)
  moreover have "escapeCsv v = (if needsWrapper v then [DQUOTE] @ doubleQuotes v @ [DQUOTE] else v)"
    by (auto simp: escapeCsv_def needsWrapper_def doubleQuotes_plain)
  ultimately show ?thesis
    using wrapped_escapeCsv [of v] escapeCsv_example by (simp add: needsWrapper_def)
qed

text \<open>
  C4. When the conversion succeeds, the parsed record count is at most the declared record
  count, and it is the declared count minus the number of fitting records whose deletion
  flag is \<open>0x2A\<close> minus the number of declared indices whose record does not fit in the
  buffer. Those indices are trailing: every record before a fitting one fits.
\<close>

theorem parsedRecords_count:
  assumes "convertDbfToCsv buf = Inr r"
  shows "parsedRecords r \<le> recordCount r
       \<and> int (parsedRecords r) =
           int (recordCount r)
           - int (deletedCount buf (headerLength r) (recordLength r) (recordCount r))
           - int (truncatedCount buf (headerLength r) (recordLength r) (recordCount r))
       \<and> (\<forall>i j. i \<le> j \<and> recordFits buf (headerLength r) (recordLength r) j
              \<longrightarrow> recordFits buf (headerLength r) (recordLength r) i)"
proof -
  have total: "parsedRecords r + deletedCount buf (headerLength r) (recordLength r) (recordCount r)
        + truncatedCount buf (headerLength r) (recordLength r) (recordCount r) = recordCount r"
    using three_way_count [of "recordFits buf (headerLength r) (recordLength r)"
        "isDeleted buf (headerLength r) (recordLength r)" "[0..<recordCount r]"]
    by (simp add: convert_Inr_char(2) [OF assms] liveFrom_def deletedCount_def truncatedCount_def)
  have trailing: "\<forall>i j. i \<le> j \<and> recordFits buf (headerLength r) (recordLength r) j
              \<longrightarrow> recordFits buf (headerLength r) (recordLength r) i"
    using recordFits_mono by blast
  from total have "parsedRecords r \<le> recordCount r" and
    "int (parsedRecords r) =
           int (recordCount r)
           - int (deletedCount buf (headerLength r) (recordLength r) (recordCount r))
           - int (truncatedCount buf (headerLength r) (recordLength r) (recordCount r))"
    by linarith+
  with trailing show ?thesis by blast
qed

theorem parsedRecords_count_witness:
  "convertDbfToCsv sampleBuf = Inr sampleResult
   \<and> deletedCount sampleBuf 97 4 4 = 1 \<and> truncatedCount sampleBuf 97 4 4 = 1
   \<and> parsedRecords sampleResult = 2 \<and> recordCount sampleResult = 4
   \<and> parsedRecords sampleResult \<le> recordCount sampleResult
   \<and> int (parsedRecords sampleResult) =
       int (recordCount sampleResult)
       - int (deletedCount sampleBuf (headerLength sampleResult) (recordLength sampleResult)
               (recordCount sampleResult))
       - int (truncatedCount sampleBuf (headerLength sampleResult) (recordLength sampleResult)
               (recordCount sampleResult))"
  using parsedRecords_count [OF convert_sampleBuf, THEN conjunct1]
    parsedRecords_count [OF convert_sampleBuf, THEN conjunct2, THEN conjunct1]
    convert_sampleBuf counts_sampleBuf
  by (simp add: sampleResult_sel)

text \<open>
  C5. When the conversion succeeds, the CSV text is the header row followed by the rows of
  exactly the records that fit and whose deletion flag is not \<open>0x2A\<close>, in index order,
  and the parsed record count is their number: a record flagged \<open>0x2A\<close> gives no row and
  is not counted, and the records behind it are still scanned.
\<close>

theorem deleted_records_skipped:
  assumes "convertDbfToCsv buf = Inr r"
  shows "csv r = csvText (map name (fields' r)
                   # map (recordCells buf (fields' r) (headerLength r) (recordLength r))
                       (liveFrom buf (headerLength r) (recordLength r) (recordCount r) 0))
       \<and> parsedRecords r
           = length (liveFrom buf (headerLength r) (recordLength r) (recordCount r) 0)
       \<and> set (liveFrom buf (headerLength r) (recordLength r) (recordCount r) 0)
           = {i. i < recordCount r \<and> recordFits buf (headerLength r) (recordLength r) i
                 \<and> \<not> isDeleted buf (headerLength r) (recordLength r) i}"
  using convert_Inr_char(1,2) [OF assms] by (simp add: set_liveFrom)

theorem deleted_records_skipped_witness:
  "convertDbfToCsv sampleBuf = Inr sampleResult
   \<and> isDeleted sampleBuf 97 4 1
   \<and> liveFrom sampleBuf 97 4 4 0 = [0, 2]
   \<and> csv sampleResult = csvText (map name (fields' sampleResult)
                   # map (recordCells sampleBuf (fields' sampleResult) (headerLength sampleResult)
                            (recordLength sampleResult))
                       (liveFrom sampleBuf (headerLength sampleResult) (recordLength sampleResult)
                          (recordCount sampleResult) 0))
   \<and> parsedRecords sampleResult = 2"
proof -
  have "isDeleted sampleBuf 97 4 1"
    by (simp add: isDeleted_def sampleBuf_def)
  then show ?thesis
    using deleted_records_skipped [OF convert_sampleBuf, THEN conjunct1]
      deleted_records_skipped [OF convert_sampleBuf, THEN conjunct2, THEN conjunct1]
      convert_sampleBuf liveFrom_sampleBuf
    by (simp add: sampleResult_sel)
qed

text \<open>
  C7, as stated: for every input that passes the header, descriptor and first-record
  checks, a declared record that does not fit in the buffer ends the scan and the conversion
  succeeds. It fails on \<open>wideBuf\<close>: the file passes the three checks and its record 1 does
  not fit, but the field of record 0 is wider than the rest of the buffer, and the conversion
  raises the extends-beyond-file error.
\<close>

theorem truncated_tail_counterexample:
  "readHeader wideBuf = Inr (2, 65, 11)
   \<and> parseDescriptors wideBuf 65 32 [] = Inr [nameField 20]
   \<and> 65 + 11 \<le> length wideBuf
   \<and> \<not> recordFits wideBuf 65 11 1
   \<and> convertDbfToCsv wideBuf = Inl RecordBeyondFile"
  using readHeader_wideBuf parseDescriptors_wideBuf convert_wideBuf
  by (simp add: recordFits_def wideBuf_def)

text \<open>
  C7, amended: for every input that passes the header, descriptor and first-record checks,
  if the declared record \<open>k\<close> does not fit in the buffer and no fitting, non-deleted record
  before it has fields that pass the end of the buffer, the conversion succeeds; its rows
  are those of the fitting, non-deleted records before \<open>k\<close> and the parsed record count is
  their number, whatever the declared records from \<open>k\<close> on are.
\<close>

theorem truncated_tail_tolerated:
  assumes hdr: "readHeader buf = Inr (count, hl, rl)"
    and desc: "parseDescriptors buf hl 32 [] = Inr flds"
    and ne: "flds \<noteq> []"
    and room: "hl + rl \<le> length buf"
    and k: "k < count"
    and trunc: "\<not> recordFits buf hl rl k"
    and fit: "\<forall>i<k. recordFits buf hl rl i \<and> \<not> isDeleted buf hl rl i
                \<longrightarrow> \<not> overruns buf flds hl rl i"
  shows "convertDbfToCsv buf =
           Inr \<lparr>csv = csvText (map name flds
                                # map (recordCells buf flds hl rl) (liveFrom buf hl rl k 0)),
                recordCount = count, parsedRecords = length (liveFrom buf hl rl k 0),
                headerLength = hl, recordLength = rl, fields' = flds\<rparr>"
proof -
  from k trunc have eq: "liveFrom buf hl rl count 0 = liveFrom buf hl rl k 0"
    by (intro liveFrom_before_truncated) simp_all
  from fit have "\<not> (\<exists>i \<in> set (liveFrom buf hl rl k 0). overruns buf flds hl rl i)"
    by (auto simp: set_liveFrom)
  with convert_char [OF hdr desc ne room] eq show ?thesis by simp
qed

theorem truncated_tail_tolerated_witness:
  "readHeader sampleBuf = Inr (4, 97, 4)
   \<and> parseDescriptors sampleBuf 97 32 [] = Inr sampleFields
   \<and> sampleFields \<noteq> []
   \<and> 97 + 4 \<le> length sampleBuf
   \<and> (3::nat) < 4
   \<and> \<not> recordFits sampleBuf 97 4 3
   \<and> \<not> overruns sampleBuf sampleFields 97 4 0
   \<and> isDeleted sampleBuf 97 4 1
   \<and> \<not> overruns sampleBuf sampleFields 97 4 2
   \<and> liveFrom sampleBuf 97 4 3 0 = [0, 2]
   \<and> convertDbfToCsv sampleBuf =
           Inr \<lparr>csv = csvText (map name sampleFields
                                # map (recordCells sampleBuf sampleFields 97 4)
                                    (liveFrom sampleBuf 97 4 3 0)),
                recordCount = 4, parsedRecords = length (liveFrom sampleBuf 97 4 3 0),
                headerLength = 97, recordLength = 4, fields' = sampleFields\<rparr>"
proof -
  have a: "sampleFields \<noteq> []" "fieldWidth sampleFields = 3"
    by (simp_all add: sampleFields_def fieldWidth_def)
  have b: "97 + 4 \<le> length sampleBuf" "(3::nat) < 4" "\<not> recordFits sampleBuf 97 4 3"
    by (simp_all add: length_sampleBuf recordFits_def)
  have c: "\<not> overruns sampleBuf sampleFields 97 4 0" "\<not> overruns sampleBuf sampleFields 97 4 2"
    "isDeleted sampleBuf 97 4 1"
    by (simp_all add: overruns_def a length_sampleBuf isDeleted_def sampleBuf_def)
  have d: "\<forall>i<3. recordFits sampleBuf 97 4 i \<and> \<not> isDeleted sampleBuf 97 4 i
                \<longrightarrow> \<not> overruns sampleBuf sampleFields 97 4 i"
    by (simp add: overruns_def a length_sampleBuf)
  show ?thesis
    using truncated_tail_tolerated [OF readHeader_sampleBuf parseDescriptors_sampleBuf a(1) b d]
      readHeader_sampleBuf parseDescriptors_sampleBuf a(1) b c liveFrom_sampleBuf_3
    by simp
qed

text \<open>
  C8, as stated: when the conversion succeeds, the CSV text read under the RFC 4180 rules
  has one header row followed by exactly as many data rows as records were parsed. It fails
  on \<open>blankBuf\<close>: the one field of the one record is blank, so the text is \<^verbatim>\<open>A\<close> CR LF,
  which reads as the header row with its ending line break and no data row, while one record
  was parsed.
\<close>

theorem csv_shape_counterexample:
  "convertDbfToCsv blankBuf = Inr blankResult
   \<and> parsedRecords blankResult = 1
   \<and> csv blankResult = js ''A'' @ [CR, LF]
   \<and> parseCsv (csv blankResult) = [[js ''A'']]
   \<and> length (tl (parseCsv (csv blankResult))) = 0"
  using convert_blankBuf by (simp add: parseCsv_blankResult blankResult_sel)

text \<open>
  C8, amended: when the conversion succeeds, the CSV text read under the RFC 4180 rules has
  one header row, whose cells are the field names, one per field, followed by as many data
  rows as records were parsed, each with one cell per field; except that when the last
  parsed record is blank (there is one field and its value in that record sanitizes to the
  empty text) the final CR LF reads as the ending line break and there is one data row
  less.
\<close>

theorem csv_shape:
  assumes "convertDbfToCsv buf = Inr r"
  shows "hd (parseCsv (csv r)) = map name (fields' r)
       \<and> length (hd (parseCsv (csv r))) = length (fields' r)
       \<and> length (tl (parseCsv (csv r))) =
           (if lastRowBlank buf (fields' r) (headerLength r) (recordLength r) (recordCount r)
            then parsedRecords r - 1 else parsedRecords r)
       \<and> (\<forall>row \<in> set (tl (parseCsv (csv r))). length row = length (fields' r))
       \<and> (lastRowBlank buf (fields' r) (headerLength r) (recordLength r) (recordCount r)
            \<longrightarrow> length (fields' r) = 1 \<and> 0 < parsedRecords r)"
proof -
  have "lastRowBlank buf (fields' r) (headerLength r) (recordLength r) (recordCount r)
            \<longrightarrow> length (fields' r) = 1 \<and> 0 < parsedRecords r"
    using lastRowBlank_one_field [of buf "fields' r" "headerLength r" "recordLength r" "recordCount r"]
    by (auto simp: convert_Inr_char(2) [OF assms] lastRowBlank_def)
  then show ?thesis
    by (auto simp: parseCsv_convert [OF assms] convert_Inr_char(2) [OF assms] recordCells_def
        length_cellsAt)
qed

theorem csv_shape_witness:
  "convertDbfToCsv sampleBuf = Inr sampleResult
   \<and> \<not> lastRowBlank sampleBuf sampleFields 97 4 4
   \<and> hd (parseCsv (csv sampleResult)) = map name (fields' sampleResult)
   \<and> length (hd (parseCsv (csv sampleResult))) = 2
   \<and> length (tl (parseCsv (csv sampleResult))) = parsedRecords sampleResult
   \<and> convertDbfToCsv blankBuf = Inr blankResult
   \<and> lastRowBlank blankBuf [aField] 65 2 1
   \<and> hd (parseCsv (csv blankResult)) = map name (fields' blankResult)
   \<and> length (tl (parseCsv (csv blankResult))) = parsedRecords blankResult - 1"
  using csv_shape [OF convert_sampleBuf, THEN conjunct1]
    csv_shape [OF convert_sampleBuf, THEN conjunct2, THEN conjunct1]
    csv_shape [OF convert_sampleBuf, THEN conjunct2, THEN conjunct2, THEN conjunct1]
    csv_shape [OF convert_blankBuf, THEN conjunct1]
    csv_shape [OF convert_blankBuf, THEN conjunct2, THEN conjunct2, THEN conjunct1]
    convert_sampleBuf convert_blankBuf not_lastRowBlank_sampleBuf lastRowBlank_blankBuf
  by (simp add: sampleResult_sel blankResult_sel) (simp add: sampleFields_def)

text \<open>
  C9. When the conversion succeeds, the name of the field at position \<open>i\<close> (counted from 0)
  is the sanitized text of the 11 name bytes of descriptor \<open>i\<close> when that text is not empty,
  and \<^verbatim>\<open>FIELD_\<close> followed by the decimal numeral of \<open>i + 1\<close> when it is empty. The text
  written for the number is its decimal numeral, and no other text is.
\<close>

theorem field_names:
  assumes "convertDbfToCsv buf = Inr r" and "i < length (fields' r)"
  shows "name (fields' r ! i) =
           (let s = sanitizeText (take 11 (drop (32 + 32 * i) buf))
            in if s = [] then js ''FIELD_'' @ decimal (i + 1) else s)
       \<and> isDecimalOf (decimal (i + 1)) (i + 1)
       \<and> (\<forall>ds. isDecimalOf ds (i + 1) \<longrightarrow> ds = decimal (i + 1))"
proof -
  from convert_Inr [OF assms(1)]
  have "parseDescriptors buf (headerLength r) 32 [] = Inr (fields' r)" by simp
  from parseDescriptors_names [OF this] assms(2)
  have "name (fields' r ! i) =
           (let s = sanitizeText (take 11 (drop (32 + 32 * i) buf))
            in if s = [] then js ''FIELD_'' @ decimal (i + 1) else s)"
    by simp
  with decimal_isDecimalOf [of "i + 1"] isDecimalOf_unique [of _ "i + 1"] show ?thesis
    by blast
qed

theorem field_names_witness:
  "convertDbfToCsv manyBuf = Inr manyResult
   \<and> (9::nat) < length (fields' manyResult)
   \<and> sanitizeText (take 11 (drop (32 + 32 * 9) manyBuf)) = []
   \<and> name (fields' manyResult ! 9) = js ''FIELD_10''
   \<and> decimal (9 + 1) = js ''10''
   \<and> isDecimalOf (js ''10'') 10
   \<and> convertDbfToCsv sampleBuf = Inr sampleResult
   \<and> (0::nat) < length (fields' sampleResult)
   \<and> sanitizeText (take 11 (drop (32 + 32 * 0) sampleBuf)) = js ''ID''
   \<and> name (fields' sampleResult ! 0) = js ''ID''"
proof -
  have len: "(9::nat) < length (fields' manyResult)" "(0::nat) < length (fields' sampleResult)"
    by (simp_all add: manyResult_sel manyFields_def sampleResult_sel sampleFields_def)
  have s: "sanitizeText (take 11 (drop (32 + 32 * 9) manyBuf)) = []"
    "sanitizeText (take 11 (drop (32 + 32 * 0) sampleBuf)) = js ''ID''"
    by (simp_all add: manyBuf_def sampleBuf_def sanitize_defs js_def)
  have d: "decimal (9 + 1) = js ''10''"
    using decimal_10 by simp
  note many = field_names [OF convert_manyBuf len(1)]
  note sample = field_names [OF convert_sampleBuf len(2)]
  from many [THEN conjunct1] s(1) d have n10: "name (fields' manyResult ! 9) = js ''FIELD_10''"
    by (simp add: js_def)
  from many [THEN conjunct2, THEN conjunct1] d have dec: "isDecimalOf (js ''10'') 10"
    by simp
  from sample [THEN conjunct1] s(2) have nid: "name (fields' sampleResult ! 0) = js ''ID''"
    by (simp add: js_def)
  from convert_manyBuf convert_sampleBuf len s n10 d dec nid show ?thesis
    by simp
qed

text \<open>
  C10. For every input that passes the header and descriptor checks, if the header length
  plus the record length exceeds the buffer length the conversion fails with the
  payload-truncated error, whatever the declared record count is, zero included; so a
  successful conversion always has room for one full record behind the header.
\<close>

theorem payload_truncated:
  "(readHeader buf = Inr (count, hl, rl) \<and> parseDescriptors buf hl 32 [] = Inr flds
      \<and> flds \<noteq> [] \<and> length buf < hl + rl
      \<longrightarrow> convertDbfToCsv buf = Inl PayloadTruncated)
   \<and> (convertDbfToCsv buf = Inr r \<longrightarrow> headerLength r + recordLength r \<le> length buf)"
proof (intro conjI impI)
  assume "readHeader buf = Inr (count, hl, rl) \<and> parseDescriptors buf hl 32 [] = Inr flds
      \<and> flds \<noteq> [] \<and> length buf < hl + rl"
  then show "convertDbfToCsv buf = Inl PayloadTruncated"
    by (simp add: convertDbfToCsv_def)
next
  assume "convertDbfToCsv buf = Inr r"
  from convert_Inr [OF this] show "headerLength r + recordLength r \<le> length buf"
    by simp
qed

theorem payload_truncated_witness:
  "readHeader emptyBuf = Inr (0, 65, 11)
   \<and> parseDescriptors emptyBuf 65 32 [] = Inr [nameField 10]
   \<and> [nameField 10] \<noteq> []
   \<and> length emptyBuf < 65 + 11
   \<and> convertDbfToCsv emptyBuf = Inl PayloadTruncated
   \<and> convertDbfToCsv sampleBuf = Inr sampleResult
   \<and> headerLength sampleResult + recordLength sampleResult \<le> length sampleBuf"
proof -
  have len: "length emptyBuf < 65 + 11"
    by (simp add: emptyBuf_def)
  show ?thesis
    using payload_truncated [of emptyBuf 0 65 11 "[nameField 10]" sampleResult, THEN conjunct1]
      payload_truncated [of sampleBuf 0 0 0 "[]" sampleResult, THEN conjunct2]
      readHeader_emptyBuf parseDescriptors_emptyBuf convert_sampleBuf len
    by simp
qed

text \<open>
  C1, as stated: whenever the declared field lengths sum to more than the record length
  minus one, the conversion raises the extends-beyond-file error on the first non-deleted
  record it decodes. It fails on \<open>tailBuf\<close>: the one field is 11 bytes long, the record
  length is 11, the record fits and is not deleted, and the conversion succeeds, because the
  field read ends with the last byte of the buffer.
\<close>

theorem field_overrun_counterexample:
  "readHeader tailBuf = Inr (1, 65, 11)
   \<and> parseDescriptors tailBuf 65 32 [] = Inr [nameField 11]
   \<and> 11 - 1 < fieldWidth [nameField 11]
   \<and> recordFits tailBuf 65 11 0 \<and> \<not> isDeleted tailBuf 65 11 0
   \<and> convertDbfToCsv tailBuf =
       Inr \<lparr>csv = js ''NAME'' @ [CR, LF] @ js ''HELLO'' @ [0x20, 0x20, 0x20, 0x20, 0x20, 0x1A],
            recordCount = 1, parsedRecords = 1, headerLength = 65, recordLength = 11,
            fields' = [nameField 11]\<rparr>"
proof -
  have "11 - 1 < fieldWidth [nameField 11]" "recordFits tailBuf 65 11 0"
    "\<not> isDeleted tailBuf 65 11 0"
    by (simp_all add: recordFits_def isDeleted_def fieldWidth_def nameField_def tailBuf_def)
  with readHeader_tailBuf parseDescriptors_tailBuf convert_tailBuf show ?thesis
    by simp
qed

text \<open>
  C1, amended: for every input that passes the header, descriptor and first-record
  checks, the conversion raises the extends-beyond-file error exactly when some declared
  record that fits and is not deleted has a field cursor that passes the end of the buffer,
  that is \<open>recordOffset + 1\<close> plus the sum of the declared field lengths exceeds the buffer
  length; otherwise it succeeds. The bound is the end of the buffer, not the end of the
  record.
\<close>

theorem extends_beyond_file_iff:
  assumes hdr: "readHeader buf = Inr (count, hl, rl)"
    and desc: "parseDescriptors buf hl 32 [] = Inr flds"
    and ne: "flds \<noteq> []"
    and room: "hl + rl \<le> length buf"
  shows "((convertDbfToCsv buf = Inl RecordBeyondFile) =
           (\<exists>i<count. recordFits buf hl rl i \<and> \<not> isDeleted buf hl rl i
                     \<and> length buf < hl + i * rl + 1 + fieldWidth flds))
       \<and> ((\<exists>r. convertDbfToCsv buf = Inr r) =
           (\<not> (\<exists>i<count. recordFits buf hl rl i \<and> \<not> isDeleted buf hl rl i
                     \<and> length buf < hl + i * rl + 1 + fieldWidth flds)))"
  by (auto simp: convert_char [OF hdr desc ne room] set_liveFrom overruns_def)

theorem extends_beyond_file_iff_witness:
  "readHeader wideBuf = Inr (2, 65, 11)
   \<and> parseDescriptors wideBuf 65 32 [] = Inr [nameField 20]
   \<and> [nameField 20] \<noteq> []
   \<and> 65 + 11 \<le> length wideBuf
   \<and> recordFits wideBuf 65 11 0 \<and> \<not> isDeleted wideBuf 65 11 0
   \<and> length wideBuf < 65 + 0 * 11 + 1 + fieldWidth [nameField 20]
   \<and> convertDbfToCsv wideBuf = Inl RecordBeyondFile"
proof -
  have room: "65 + 11 \<le> length wideBuf"
    by (simp add: wideBuf_def)
  have rec0: "recordFits wideBuf 65 11 0" "\<not> isDeleted wideBuf 65 11 0"
    "length wideBuf < 65 + 0 * 11 + 1 + fieldWidth [nameField 20]"
    by (simp_all add: recordFits_def isDeleted_def fieldWidth_def nameField_def wideBuf_def)
  then have "\<exists>i<2. recordFits wideBuf 65 11 i \<and> \<not> isDeleted wideBuf 65 11 i
                 \<and> length wideBuf < 65 + i * 11 + 1 + fieldWidth [nameField 20]"
    by (intro exI [of _ 0]) simp
  with extends_beyond_file_iff [OF readHeader_wideBuf parseDescriptors_wideBuf _ room, THEN conjunct1]
  have "convertDbfToCsv wideBuf = Inl RecordBeyondFile"
    by simp
  with readHeader_wideBuf parseDescriptors_wideBuf room rec0 show ?thesis
    by simp
qed

text \<open>
  C2. Every failure of the conversion is one of the six descriptive errors, and no read
  leaves the buffer. The descriptor loop breaks this: on \<open>cutBuf\<close> the header checks pass,
  the marker at offset 32 is read, and the window of 11 name bytes at offset 32 needs 43
  bytes of a buffer of 40, so the platform's \<open>RangeError\<close> reaches the caller. By
  \<open>RangeError_source\<close> the descriptor loop is the only place where this happens.
\<close>

theorem descriptor_read_leaves_buffer:
  "length cutBuf = 40 \<and> readHeader cutBuf = Inr (0, 40, 1)
   \<and> getUint8 cutBuf 32 = Inr 0x4E
   \<and> uint8Array cutBuf 32 11 = Inl RangeError
   \<and> convertDbfToCsv cutBuf = Inl RangeError"
  using readHeader_cutBuf convert_cutBuf by (simp add: read_defs cutBuf_def)

end
